theory Spec2Isabelle
  imports Main
begin

section \<open>Byte strings and the Go library functions the program calls\<close>

text \<open>
  A Go string is a sequence of bytes and \<open>len\<close> counts bytes; so is a HOL \<open>string\<close>.
  The functions of this section are the ones of the Go standard library that the
  program calls (\<open>strings.HasPrefix\<close>, \<open>strings.HasSuffix\<close>, \<open>strings.Split\<close>,
  \<open>strconv.ParseInt\<close>, \<open>regexp.FindAll\<close>), written after their documented behaviour.
\<close>

definition HasPrefix :: "string \<Rightarrow> string \<Rightarrow> bool" where
  "HasPrefix s prefix = (length prefix \<le> length s \<and> take (length prefix) s = prefix)"

definition HasSuffix :: "string \<Rightarrow> string \<Rightarrow> bool" where
  "HasSuffix s suffix =
     (length suffix \<le> length s \<and> drop (length s - length suffix) s = suffix)"

text \<open>\<open>strings.Split(s, sep)\<close> for a separator of one byte: the pieces between the
  separators, one more piece than there are separators.\<close>

fun Split :: "string \<Rightarrow> char \<Rightarrow> string list" where
  "Split [] sep = [[]]"
| "Split (c # cs) sep =
     (if c = sep then [] # Split cs sep
      else (case Split cs sep of [] \<Rightarrow> [[c]] | piece # pieces \<Rightarrow> (c # piece) # pieces))"

subsection \<open>strconv.ParseInt\<close>

datatype num_error = ErrSyntax | ErrRange

definition maxUint64 :: int where
  "maxUint64 = 2 ^ 64 - 1"

text \<open>\<open>lower(c)\<close> is \<open>c | ('x' - 'X')\<close>: it sets bit 5.\<close>

definition lower :: "nat \<Rightarrow> nat" where
  "lower c = (if (c div 32) mod 2 = 0 then c + 32 else c)"

definition digit_val :: "char \<Rightarrow> nat option" where
  "digit_val ch =
     (let c = (of_char ch :: nat) in
      if 48 \<le> c \<and> c \<le> 57 then Some (c - 48)
      else if 97 \<le> lower c \<and> lower c \<le> 122 then Some (lower c - 97 + 10)
      else None)"

text \<open>The loop of \<open>ParseUint\<close> at bit size 64, \<open>n\<close> the value read so far. The
  source computes in \<open>uint64\<close>: \<open>n * base\<close> does not wrap below the cutoff, and the
  wrap-around of \<open>n + d\<close> is written out.\<close>

fun ParseUint_loop :: "nat \<Rightarrow> int \<Rightarrow> string \<Rightarrow> int \<times> num_error option" where
  "ParseUint_loop base n [] = (n, None)"
| "ParseUint_loop base n (c # cs) =
     (case digit_val c of
        None \<Rightarrow> (0, Some ErrSyntax)
      | Some d \<Rightarrow>
          if d \<ge> base then (0, Some ErrSyntax)
          else if n \<ge> maxUint64 div int base + 1 then (maxUint64, Some ErrRange)
          else (let n0 = n * int base; n1 = (n0 + int d) mod 2 ^ 64 in
                if n1 < n0 \<or> n1 > maxUint64 then (maxUint64, Some ErrRange)
                else ParseUint_loop base n1 cs))"

definition ParseUint :: "string \<Rightarrow> nat \<Rightarrow> int \<times> num_error option" where
  "ParseUint s base = (if s = [] then (0, Some ErrSyntax) else ParseUint_loop base 0 s)"

text \<open>\<open>ParseInt(s, base, 64)\<close> for an explicit base (the program passes 10 and 16):
  the pair Go returns, the value and the error (\<open>None\<close> for \<open>nil\<close>).\<close>

definition ParseInt :: "string \<Rightarrow> nat \<Rightarrow> int \<times> num_error option" where
  "ParseInt s base =
     (if s = [] then (0, Some ErrSyntax)
      else
        let neg = (hd s = CHR ''-'');
            s1 = (if hd s = CHR ''+'' \<or> hd s = CHR ''-'' then tl s else s)
        in case ParseUint s1 base of
             (un, Some ErrSyntax) \<Rightarrow> (0, Some ErrSyntax)
           | (un, _) \<Rightarrow>
               let cutoff = (2 :: int) ^ 63 in
               if \<not> neg \<and> un \<ge> cutoff then (cutoff - 1, Some ErrRange)
               else if neg \<and> un > cutoff then (- cutoff, Some ErrRange)
               else (if neg then - un else un, None))"

subsection \<open>regexp: the pattern of the program and FindAll\<close>

text \<open>
  The program compiles one pattern, \<^verbatim>\<open>\w{3,4}=\w{1,4};\<close>: a sequence of greedy
  bounded repetitions of a one-byte class. \<open>match_here\<close> is the backtracking match
  anchored at the head of the input, longest repetition tried first, giving the length of
  the preferred match; \<open>FindAll\<close> collects the successive non-overlapping leftmost
  matches, as \<open>re.FindAll(b, -1)\<close> does: after a match of \<open>n\<close> bytes the search
  resumes behind it (a match of the pattern of the program has at least six bytes), and
  where nothing matches it moves on by one byte. The class \<^verbatim>\<open>\w\<close> is
  \<^verbatim>\<open>[0-9A-Za-z_]\<close>.
\<close>

datatype cls = Word | Lit char

type_synonym piece = "cls \<times> nat \<times> nat"

definition is_word_char :: "char \<Rightarrow> bool" where
  "is_word_char ch =
     (let c = (of_char ch :: nat) in
      (48 \<le> c \<and> c \<le> 57) \<or> (65 \<le> c \<and> c \<le> 90) \<or> c = 95 \<or> (97 \<le> c \<and> c \<le> 122))"

fun in_cls :: "cls \<Rightarrow> char \<Rightarrow> bool" where
  "in_cls Word c = is_word_char c"
| "in_cls (Lit l) c = (c = l)"

text \<open>Try the repetition counts \<open>k, k - 1, \<dots>, lo\<close> in this order.\<close>

fun try_down :: "(nat \<Rightarrow> nat option) \<Rightarrow> nat \<Rightarrow> nat \<Rightarrow> nat option" where
  "try_down f lo 0 = (if lo = 0 then f 0 else None)"
| "try_down f lo (Suc k) =
     (if Suc k < lo then None
      else (case f (Suc k) of Some n \<Rightarrow> Some n | None \<Rightarrow> try_down f lo k))"

fun match_here :: "piece list \<Rightarrow> string \<Rightarrow> nat option" where
  "match_here [] s = Some 0"
| "match_here ((c, lo, hi) # ps) s =
     try_down (\<lambda>k. map_option (\<lambda>n. k + n) (match_here ps (drop k s))) lo
       (min hi (length (takeWhile (in_cls c) s)))"

fun FindAll :: "piece list \<Rightarrow> string \<Rightarrow> string list" where
  "FindAll ps [] = []"
| "FindAll ps (c # cs) =
     (case match_here ps (c # cs) of
        None \<Rightarrow> FindAll ps cs
      | Some n \<Rightarrow> take n (c # cs) # FindAll ps (drop (n - 1) cs))"

definition re :: "piece list" where
  "re = [(Word, 3, 4), (Lit CHR ''='', 1, 1), (Word, 1, 4), (Lit CHR '';'', 1, 1)]"

section \<open>The parameter registry\<close>

definition VxxParams :: "string list" where
  "VxxParams = [''V00'', ''V01'', ''V02'', ''V03'', ''V04'', ''V05'', ''V06'', ''V07'', ''V08'']"

definition TxxParams :: "string list" where
  "TxxParams = [''T01'', ''T02'', ''T03'', ''T04'', ''T05'', ''T06'', ''T07'', ''T08'']"

definition pumpParams :: "string list" where
  "pumpParams = [''PUMP_ON'', ''PUMP_OFF'']"

fun stringInSlice :: "string \<Rightarrow> string list \<Rightarrow> bool" where
  "stringInSlice a [] = False"
| "stringInSlice a (b # list) = (if b = a then True else stringInSlice a list)"

definition URLValueValid :: "string \<Rightarrow> string \<Rightarrow> bool" where
  "URLValueValid p v =
     (if length v > 0 then
        (case ParseInt v 10 of
           (valueToInt, Some err) \<Rightarrow> False
         | (valueToInt, None) \<Rightarrow>
             if stringInSlice p VxxParams \<and> valueToInt \<ge> 0 \<and> valueToInt < 256 then True
             else if stringInSlice p TxxParams \<and> valueToInt \<ge> 0 \<and> valueToInt < 1000 then True
             else False)
      else if stringInSlice p pumpParams then True
      else False)"

definition URLParamValid :: "string \<Rightarrow> bool" where
  "URLParamValid s =
     (if stringInSlice s VxxParams \<or> stringInSlice s TxxParams \<or> stringInSlice s pumpParams
      then True else False)"

section \<open>Validation of a reply line\<close>

text \<open>\<open>outputIsValid\<close> of main.go. The slice \<open>s[:4]\<close> is taken only when
  \<open>len(s) > 168\<close>, so it is always in range.\<close>

definition outputIsValid :: "string \<Rightarrow> piece list \<Rightarrow> bool" where
  "outputIsValid s r =
     (if length s > 168 then
        (if take 4 s = ''V00='' \<and> HasSuffix s '';'' \<and> length (FindAll r s) \<ge> 28
         then True else False)
      else False)"

text \<open>The function of the same name in the second source file, which also bounds the
  length from above.\<close>

definition outputIsValid_part_000 :: "string \<Rightarrow> piece list \<Rightarrow> bool" where
  "outputIsValid_part_000 s r =
     (if length s > 168 \<and> length s < 215 then
        (if take 4 s = ''V00='' \<and> HasSuffix s '';'' \<and> length (FindAll r s) \<ge> 28
         then True else False)
      else False)"

section \<open>Sample reply lines\<close>

text \<open>A reply line of 28 fields and 212 bytes, and one of 220 bytes (wider values in
  the \<open>T\<close> fields).\<close>

definition sample_line :: string where
  "sample_line = ''V00=ff;V01=00;V02=00;V03=00;V04=00;V05=00;V06=00;V07=00;V08=00;T01=080;T02=080;T03=080;T04=080;T05=080;T06=080;T07=080;T08=080;C01=025;C02=025;C03=025;C04=025;C05=025;C06=025;C07=025;C08=025;S00=00;S01=00;PUMP=1;''"

definition long_line :: string where
  "long_line = ''V00=ff;V01=00;V02=00;V03=00;V04=00;V05=00;V06=00;V07=00;V08=00;T01=0080;T02=0080;T03=0080;T04=0080;T05=0080;T06=0080;T07=0080;T08=0080;C01=025;C02=025;C03=025;C04=025;C05=025;C06=025;C07=025;C08=025;S00=00;S01=00;PUMP=1;''"

text \<open>The segments of \<open>sample_line\<close> after the first.\<close>

definition sample_rest :: "string list" where
  "sample_rest = [''V01=00'', ''V02=00'', ''V03=00'', ''V04=00'', ''V05=00'', ''V06=00'', ''V07=00'', ''V08=00'', ''T01=080'', ''T02=080'', ''T03=080'', ''T04=080'', ''T05=080'', ''T06=080'', ''T07=080'', ''T08=080'', ''C01=025'', ''C02=025'', ''C03=025'', ''C04=025'', ''C05=025'', ''C06=025'', ''C07=025'', ''C08=025'', ''S00=00'', ''S01=00'', ''PUMP=1'']"

text \<open>A valid line whose first field does not parse as a hexadecimal number.\<close>

definition garbled_line :: string where
  "garbled_line = ''V00=zz;V01=00;V02=00;V03=00;V04=00;V05=00;V06=00;V07=00;V08=00;T01=080;T02=080;T03=080;T04=080;T05=080;T06=080;T07=080;T08=080;C01=025;C02=025;C03=025;C04=025;C05=025;C06=025;C07=025;C08=025;S00=00;S01=00;PUMP=1;''"

text \<open>A line of 20 well-formed segments only (the value of \<open>C01\<close> is too long), and a full line that reports the pump off.\<close>

definition short_line :: string where
  "short_line = ''V00=ff;V01=00;V02=00;V03=00;V04=00;V05=00;V06=00;V07=00;V08=00;T01=080;T02=080;T03=080;T04=080;T05=080;T06=080;T07=080;T08=080;C01=0000000000000000000000000000025;S00=00;S01=00;PUMP=1;''"

definition pump_off_line :: string where
  "pump_off_line = ''V00=00;V01=00;V02=00;V03=00;V04=00;V05=00;V06=00;V07=00;V08=00;T01=080;T02=080;T03=080;T04=080;T05=080;T06=080;T07=080;T08=080;C01=025;C02=025;C03=025;C04=025;C05=025;C06=025;C07=025;C08=025;S00=00;S01=00;PUMP=0;''"

section \<open>Decoding a reply line\<close>

datatype failure =
    PanicParse num_error  \<comment> \<open>\<open>check(err)\<close> after \<open>strconv.ParseInt\<close>\<close>
  | PanicIndex            \<comment> \<open>index out of range\<close>
  | PanicWrite            \<comment> \<open>\<open>check(err)\<close> after \<open>arduino.Write\<close>\<close>
  | PanicOpen             \<comment> \<open>\<open>check(err)\<close> after \<open>serial.Open\<close>\<close>
  | FatalDB               \<comment> \<open>\<open>log.Fatal\<close> after the database write\<close>

type_synonym frame = "string \<rightharpoonup> int"

text \<open>The loop of \<open>outputToMap\<close> over the segments. \<open>splitted_i[1]\<close> panics when the
  segment holds no \<open>=\<close>; \<open>check\<close> panics when the value does not parse.\<close>

fun outputToMap_loop :: "string list \<Rightarrow> frame \<Rightarrow> failure + frame" where
  "outputToMap_loop [] res = Inr res"
| "outputToMap_loop (i # rest) res =
     (let splitted_i = Split i CHR ''='' in
      if length splitted_i < 2 then Inl PanicIndex
      else if HasPrefix i ''V'' then
        (case ParseInt (splitted_i ! 1) 16 of
           (num, Some err) \<Rightarrow> Inl (PanicParse err)
         | (num, None) \<Rightarrow> outputToMap_loop rest (res(splitted_i ! 0 \<mapsto> num)))
      else
        (case ParseInt (splitted_i ! 1) 10 of
           (number, Some err) \<Rightarrow> Inl (PanicParse err)
         | (number, None) \<Rightarrow> outputToMap_loop rest (res(splitted_i ! 0 \<mapsto> number))))"

definition outputToMap :: "string \<Rightarrow> failure + frame" where
  "outputToMap s =
     (let splitted_s = Split s CHR '';'' in outputToMap_loop (butlast splitted_s) Map.empty)"

section \<open>The serial port, the database and the handlers\<close>

text \<open>
  The environment fixes what the outside world does: the line that the k-th read of the
  port delivers (the empty line when the scan fails), and whether the k-th write to the
  port, the k-th reopening of the port and the k-th write to the database fail. The world
  is what the program has done so far.
\<close>

record env =
  line :: "nat \<Rightarrow> string"
  write_err :: "nat \<Rightarrow> bool"
  open_err :: "nat \<Rightarrow> bool"
  db_err :: "nat \<Rightarrow> bool"

record world =
  written :: "string list"  \<comment> \<open>the commands passed to \<open>arduino.Write\<close>, in order\<close>
  nreads :: nat             \<comment> \<open>the number of lines read from the port\<close>
  reopened :: nat           \<comment> \<open>the number of calls of \<open>serial.Open\<close> after a failed write\<close>
  points :: "frame list"    \<comment> \<open>the frames passed to the database, in order\<close>

datatype response = Text string | Json frame

type_synonym 'a result = "(failure + 'a) \<times> world"

text \<open>\<open>singleOutputRead\<close>: write the query, read one line, until a line is valid.
  A run that never returns has the value \<open>None\<close>.\<close>

partial_function (option) singleOutputRead :: "env \<Rightarrow> world \<Rightarrow> string result option" where
  "singleOutputRead e st =
     (let st1 = st\<lparr>written := written st @ [''<GET_ALL;>'']\<rparr> in
      if write_err e (length (written st)) then Some (Inl PanicWrite, st1)
      else
        let output = line e (nreads st1);
            st2 = st1\<lparr>nreads := Suc (nreads st1)\<rparr>
        in if outputIsValid output re then Some (Inr output, st2)
           else singleOutputRead e st2)"

text \<open>The polling loop of \<open>setHandler\<close> for a level parameter. \<open>json.Marshal\<close> of a
  map of integers does not fail.\<close>

partial_function (option) level_loop ::
  "env \<Rightarrow> string \<Rightarrow> int \<Rightarrow> world \<Rightarrow> response result option" where
  "level_loop e param valueToInt st =
     (case singleOutputRead e st of
        None \<Rightarrow> None
      | Some (Inl f, st1) \<Rightarrow> Some (Inl f, st1)
      | Some (Inr output, st1) \<Rightarrow>
          (case outputToMap output of
             Inl f \<Rightarrow> Some (Inl f, st1)
           | Inr answer \<Rightarrow>
               if answer param = Some valueToInt then Some (Inr (Json answer), st1)
               else level_loop e param valueToInt st1))"

text \<open>The polling loop of \<open>setHandler\<close> for a toggle parameter.\<close>

partial_function (option) pump_loop :: "env \<Rightarrow> string \<Rightarrow> world \<Rightarrow> response result option" where
  "pump_loop e param st =
     (case singleOutputRead e st of
        None \<Rightarrow> None
      | Some (Inl f, st1) \<Rightarrow> Some (Inl f, st1)
      | Some (Inr output, st1) \<Rightarrow>
          (case outputToMap output of
             Inl f \<Rightarrow> Some (Inl f, st1)
           | Inr answer \<Rightarrow>
               if param = ''PUMP_ON'' \<and> answer ''PUMP'' = Some 1 then Some (Inr (Json answer), st1)
               else if param = ''PUMP_OFF'' \<and> answer ''PUMP'' = Some 0
                 then Some (Inr (Json answer), st1)
               else pump_loop e param st1))"

text \<open>One fresh frame, as the threshold branch and \<open>getHandler\<close> read it.\<close>

definition read_frame :: "env \<Rightarrow> world \<Rightarrow> response result option" where
  "read_frame e st =
     (case singleOutputRead e st of
        None \<Rightarrow> None
      | Some (Inl f, st1) \<Rightarrow> Some (Inl f, st1)
      | Some (Inr output, st1) \<Rightarrow>
          (case outputToMap output of
             Inl f \<Rightarrow> Some (Inl f, st1)
           | Inr answer \<Rightarrow> Some (Inr (Json answer), st1)))"

definition setHandler :: "env \<Rightarrow> world \<Rightarrow> string \<Rightarrow> string \<Rightarrow> response result option" where
  "setHandler e st param value =
     (if \<not> URLParamValid param then Some (Inr (Text ''error: incorrect param!''), st)
      else if \<not> URLValueValid param value then Some (Inr (Text ''error: incorrect value!''), st)
      else
        let command = (if HasPrefix param ''PUMP'' then ''<'' @ param @ '';>''
                       else ''<SET_'' @ param @ ''='' @ value @ '';>'');
            st1 = st\<lparr>written := written st @ [command]\<rparr>
        in if write_err e (length (written st)) then Some (Inl PanicWrite, st1)
           else if stringInSlice param VxxParams then
             (case ParseInt value 10 of
                (valueToInt, Some err) \<Rightarrow> Some (Inl (PanicParse err), st1)
              | (valueToInt, None) \<Rightarrow> level_loop e param valueToInt st1)
           else if stringInSlice param pumpParams then pump_loop e param st1
           else if stringInSlice param TxxParams then read_frame e st1
           else Some (Inr (Text ''error: something unexpected happened''), st1))"

definition getHandler :: "env \<Rightarrow> world \<Rightarrow> response result option" where
  "getHandler e st = read_frame e st"

text \<open>One cycle of the loop of \<open>DB_routine\<close>. After a failed write the port is reopened
  and the cycle goes on to read, without writing the query again.\<close>

definition DB_cycle :: "env \<Rightarrow> world \<Rightarrow> unit result" where
  "DB_cycle e st =
     (let st1 = st\<lparr>written := written st @ [''<GET_ALL;>'']\<rparr>;
          st2 = (if write_err e (length (written st))
                 then st1\<lparr>reopened := Suc (reopened st1)\<rparr> else st1)
      in if write_err e (length (written st)) \<and> open_err e (reopened st1)
         then (Inl PanicOpen, st2)
         else
           let output = line e (nreads st2);
               st3 = st2\<lparr>nreads := Suc (nreads st2)\<rparr>
           in if outputIsValid output re then
                (case outputToMap output of
                   Inl f \<Rightarrow> (Inl f, st3)
                 | Inr outputMap \<Rightarrow>
                     let st4 = st3\<lparr>points := points st3 @ [outputMap]\<rparr>
                     in if db_err e (length (points st3)) then (Inl FatalDB, st4)
                        else (Inr (), st4))
              else (Inr (), st3))"

text \<open>The loop itself: it ends only by a panic or a fatal error.\<close>

partial_function (option) DB_routine :: "env \<Rightarrow> world \<Rightarrow> (failure \<times> world) option" where
  "DB_routine e st =
     (case DB_cycle e st of
        (Inl f, st1) \<Rightarrow> Some (f, st1)
      | (Inr u, st1) \<Rightarrow> DB_routine e st1)"

section \<open>Notions used in the statements\<close>

text \<open>The world after \<open>k\<close> more rounds of query and reply.\<close>

definition polled :: "world \<Rightarrow> nat \<Rightarrow> world" where
  "polled st k = st\<lparr>written := written st @ replicate k ''<GET_ALL;>'', nreads := nreads st + k\<rparr>"

text \<open>The state a toggle request waits for: 1 for \<open>PUMP_ON\<close>, 0 for \<open>PUMP_OFF\<close>.\<close>

definition pump_target :: "string \<Rightarrow> int" where
  "pump_target param = (if param = ''PUMP_ON'' then 1 else 0)"

text \<open>The value of a field of a decoded line, \<open>None\<close> when the line does not decode
  or has no such field.\<close>

definition field_of :: "string \<Rightarrow> string \<Rightarrow> int option" where
  "field_of s name = (case outputToMap s of Inl f \<Rightarrow> None | Inr answer \<Rightarrow> answer name)"

text \<open>The panic that decoding a line ends in, if any.\<close>

definition panic_of :: "string \<Rightarrow> failure option" where
  "panic_of s = (case outputToMap s of Inl f \<Rightarrow> Some f | Inr answer \<Rightarrow> None)"

text \<open>A quiet environment that delivers the same line for ever, and the initial world.\<close>

definition steady :: "string \<Rightarrow> env" where
  "steady s = \<lparr>line = (\<lambda>k. s), write_err = (\<lambda>k. False), open_err = (\<lambda>k. False),
     db_err = (\<lambda>k. False)\<rparr>"

definition world0 :: world where
  "world0 = \<lparr>written = [], nreads = 0, reopened = 0, points = []\<rparr>"

text \<open>An environment in which the pump is reported off in the first two replies and on
  from the third.\<close>

definition settling :: env where
  "settling = \<lparr>line = (\<lambda>k. if k < 2 then pump_off_line else sample_line),
     write_err = (\<lambda>k. False), open_err = (\<lambda>k. False), db_err = (\<lambda>k. False)\<rparr>"

text \<open>The text of a natural number in a base up to 16, lower-case digits and no padding,
  as \<open>strconv.FormatInt\<close> writes it: the decimal text a caller sends and the
  hexadecimal text the device answers with.\<close>

definition digit_char :: "nat \<Rightarrow> char" where
  "digit_char d = ''0123456789abcdef'' ! d"

function number_text :: "nat \<Rightarrow> nat \<Rightarrow> string" where
  "number_text n base =
     (if base < 2 \<or> n < base then [digit_char n]
      else number_text (n div base) base @ [digit_char (n mod base)])"
  by pat_completeness auto
termination
  by (relation "measure fst") auto

definition dec_text :: "nat \<Rightarrow> string" where
  "dec_text v = number_text v 10"

definition hex_text :: "nat \<Rightarrow> string" where
  "hex_text v = number_text v 16"

section \<open>Interleaving of port operations\<close>

text \<open>
  The program runs \<open>DB_routine\<close> in a goroutine of its own and every request in another,
  all on the one port held in the package variable \<open>arduino\<close>, and takes no lock. Each
  of them works on the port by writing a command and then reading a line. A schedule is
  the order in which the port sees the operations of the tasks.
\<close>

datatype task = Telemetry | Request nat

datatype port_op = PortWrite string | PortRead

fun do_op :: "world \<Rightarrow> port_op \<Rightarrow> world" where
  "do_op st (PortWrite c) = st\<lparr>written := written st @ [c]\<rparr>"
| "do_op st PortRead = st\<lparr>nreads := Suc (nreads st)\<rparr>"

text \<open>One round of query and reply, as \<open>singleOutputRead\<close> and the cycle of
  \<open>DB_routine\<close> perform it, and the same round as the operations of a task.\<close>

definition round_ops :: "port_op list" where
  "round_ops = [PortWrite ''<GET_ALL;>'', PortRead]"


text \<open>The device answers the k-th command with the k-th line. \<open>sent s ! k\<close> is the task
  that wrote the k-th command of the schedule and \<open>received s ! k\<close> the task that read
  the k-th line; the replies are matched when every line read went to the task whose
  command it answers.\<close>

fun sent :: "(task \<times> port_op) list \<Rightarrow> task list" where
  "sent [] = []"
| "sent ((t, PortWrite c) # s) = t # sent s"
| "sent ((t, PortRead) # s) = sent s"

fun received :: "(task \<times> port_op) list \<Rightarrow> task list" where
  "received [] = []"
| "received ((t, PortWrite c) # s) = received s"
| "received ((t, PortRead) # s) = t # received s"





section \<open>Properties of the registry and of validation\<close>

lemma stringInSlice_set: "stringInSlice a list \<longleftrightarrow> a \<in> set list"
  by (induction list) auto

lemma HasSuffix_semicolon: "HasSuffix s '';'' \<longleftrightarrow> (s \<noteq> [] \<and> last s = CHR '';'')"
proof (cases s rule: rev_cases)
  case Nil
  then show ?thesis by (simp add: HasSuffix_def)
next
  case (snoc ys y)
  then show ?thesis by (auto simp add: HasSuffix_def)
qed

lemma sample_line_valid: "length sample_line = 212 \<and> outputIsValid sample_line re"
  by code_simp

lemma long_line_valid: "length long_line = 220 \<and> outputIsValid long_line re"
  by code_simp

text \<open>
  C2. The validator of reply lines accepts a line exactly when it has at least 169
  bytes, begins with \<open>V00=\<close>, ends with \<open>;\<close> and the pattern matcher finds at least 28
  segments in it; when one of the four conditions fails, it returns false.
\<close>

theorem outputIsValid_iff:
  "outputIsValid s re \<longleftrightarrow>
     (169 \<le> length s \<and> take 4 s = ''V00='' \<and> s \<noteq> [] \<and> last s = CHR '';''
      \<and> 28 \<le> length (FindAll re s))"
  unfolding outputIsValid_def HasSuffix_semicolon by auto

theorem outputIsValid_iff_witness:
  "outputIsValid sample_line re \<and> 169 \<le> length sample_line
   \<and> take 4 sample_line = ''V00='' \<and> last sample_line = CHR '';''
   \<and> 28 \<le> length (FindAll re sample_line)
   \<and> \<not> outputIsValid short_line re \<and> length (FindAll re short_line) < 28"
proof -
  have "length (FindAll re short_line) = 20 \<and> \<not> outputIsValid short_line re" by code_simp
  then show ?thesis
    using outputIsValid_iff [of sample_line] sample_line_valid by simp
qed

text \<open>
  C6. The two validators differ in their length bounds: some line of 215 bytes or more
  is accepted by the one of main.go and rejected by the one of the second file, and on
  every line of 169 to 214 bytes the two agree.
\<close>

theorem validators_diverge:
  "(\<exists>s. 215 \<le> length s \<and> outputIsValid s re \<and> \<not> outputIsValid_part_000 s re)
   \<and> (\<forall>s. 169 \<le> length s \<and> length s \<le> 214 \<longrightarrow>
          outputIsValid_part_000 s re = outputIsValid s re)"
proof
  have "215 \<le> length long_line \<and> outputIsValid long_line re
        \<and> \<not> outputIsValid_part_000 long_line re"
    using long_line_valid by (simp add: outputIsValid_part_000_def)
  then show "\<exists>s. 215 \<le> length s \<and> outputIsValid s re \<and> \<not> outputIsValid_part_000 s re"
    by blast
next
  show "\<forall>s. 169 \<le> length s \<and> length s \<le> 214 \<longrightarrow>
          outputIsValid_part_000 s re = outputIsValid s re"
    by (simp add: outputIsValid_def outputIsValid_part_000_def)
qed

theorem validators_diverge_witness:
  "169 \<le> length sample_line \<and> length sample_line \<le> 214
   \<and> outputIsValid_part_000 sample_line re \<and> outputIsValid sample_line re"
proof -
  have h: "169 \<le> length sample_line \<and> length sample_line \<le> 214"
    using sample_line_valid by simp
  have "outputIsValid_part_000 sample_line re = outputIsValid sample_line re"
    using validators_diverge h by blast
  then show ?thesis using h sample_line_valid by simp
qed

subsection \<open>Validation of a value\<close>

lemma ParseInt_empty: "ParseInt [] base = (0, Some ErrSyntax)"
  by (simp add: ParseInt_def)

lemma level_not_other:
  "stringInSlice p VxxParams \<Longrightarrow> \<not> stringInSlice p TxxParams \<and> \<not> stringInSlice p pumpParams"
  by (auto simp add: stringInSlice_set VxxParams_def TxxParams_def pumpParams_def)

lemma threshold_not_other:
  "stringInSlice p TxxParams \<Longrightarrow> \<not> stringInSlice p VxxParams \<and> \<not> stringInSlice p pumpParams"
  by (auto simp add: stringInSlice_set VxxParams_def TxxParams_def pumpParams_def)

lemma toggle_not_other:
  "stringInSlice p pumpParams \<Longrightarrow> \<not> stringInSlice p VxxParams \<and> \<not> stringInSlice p TxxParams"
  by (auto simp add: stringInSlice_set VxxParams_def TxxParams_def pumpParams_def)

lemma URLValueValid_level:
  assumes "stringInSlice p VxxParams"
  shows "URLValueValid p v \<longleftrightarrow> (\<exists>n. ParseInt v 10 = (n, None) \<and> 0 \<le> n \<and> n \<le> 255)"
proof (cases "v = []")
  case True
  with assms show ?thesis
    using level_not_other [OF assms] by (simp add: URLValueValid_def ParseInt_empty)
next
  case False
  obtain n e where pe: "ParseInt v 10 = (n, e)" by (cases "ParseInt v 10")
  with False assms show ?thesis
    using level_not_other [OF assms] by (cases e) (auto simp add: URLValueValid_def)
qed

lemma URLValueValid_threshold:
  assumes "stringInSlice p TxxParams"
  shows "URLValueValid p v \<longleftrightarrow> (\<exists>n. ParseInt v 10 = (n, None) \<and> 0 \<le> n \<and> n \<le> 999)"
proof (cases "v = []")
  case True
  with assms show ?thesis
    using threshold_not_other [OF assms] by (simp add: URLValueValid_def ParseInt_empty)
next
  case False
  obtain n e where pe: "ParseInt v 10 = (n, e)" by (cases "ParseInt v 10")
  with False assms show ?thesis
    using threshold_not_other [OF assms] by (cases e) (auto simp add: URLValueValid_def)
qed

lemma URLValueValid_parse_error:
  assumes "snd (ParseInt v 10) \<noteq> None" and "\<not> (v = [] \<and> stringInSlice p pumpParams)"
  shows "\<not> URLValueValid p v"
proof (cases "v = []")
  case True
  with assms show ?thesis by (simp add: URLValueValid_def)
next
  case False
  obtain n e where pe: "ParseInt v 10 = (n, e)" by (cases "ParseInt v 10")
  with False assms show ?thesis by (cases e) (auto simp add: URLValueValid_def)
qed

lemma URLValueValid_negative:
  assumes "ParseInt v 10 = (n, None)" and "n < 0"
  shows "\<not> URLValueValid p v"
  using assms by (cases "v = []") (auto simp add: URLValueValid_def ParseInt_empty)

text \<open>
  C3, as stated, fails for a toggle parameter: the empty value is not a number, and
  validation accepts it.
\<close>

theorem URLValueValid_counterexample:
  "snd (ParseInt [] 10) \<noteq> None \<and> URLValueValid ''PUMP_ON'' []"
  by (simp add: ParseInt_empty URLValueValid_def pumpParams_def)

text \<open>
  C3, amended. Validation returns false when the value does not parse as a decimal
  integer, unless the value is empty and the parameter is a toggle parameter, and when
  it parses to a negative integer. For a level parameter it returns true exactly when the
  value parses to an integer from 0 to 255, for a threshold parameter exactly when it
  parses to an integer from 0 to 999; so 256 and 1000 and everything above are rejected.
  The empty value of a toggle parameter is accepted.
\<close>

theorem URLValueValid_classes:
  "(snd (ParseInt v 10) \<noteq> None \<and> \<not> (v = [] \<and> stringInSlice p pumpParams)
      \<longrightarrow> \<not> URLValueValid p v)
   \<and> (fst (ParseInt v 10) < 0 \<and> snd (ParseInt v 10) = None \<longrightarrow> \<not> URLValueValid p v)
   \<and> (stringInSlice p VxxParams \<longrightarrow>
        (URLValueValid p v \<longleftrightarrow> (\<exists>n. ParseInt v 10 = (n, None) \<and> 0 \<le> n \<and> n \<le> 255)))
   \<and> (stringInSlice p TxxParams \<longrightarrow>
        (URLValueValid p v \<longleftrightarrow> (\<exists>n. ParseInt v 10 = (n, None) \<and> 0 \<le> n \<and> n \<le> 999)))
   \<and> (v = [] \<and> stringInSlice p pumpParams \<longrightarrow> URLValueValid p v)"
proof (intro conjI impI)
  assume "snd (ParseInt v 10) \<noteq> None \<and> \<not> (v = [] \<and> stringInSlice p pumpParams)"
  then show "\<not> URLValueValid p v" using URLValueValid_parse_error by blast
next
  assume "fst (ParseInt v 10) < 0 \<and> snd (ParseInt v 10) = None"
  then have "ParseInt v 10 = (fst (ParseInt v 10), None)" "fst (ParseInt v 10) < 0"
    by (simp_all add: prod_eq_iff)
  then show "\<not> URLValueValid p v" by (rule URLValueValid_negative)
next
  assume "stringInSlice p VxxParams"
  then show "URLValueValid p v \<longleftrightarrow> (\<exists>n. ParseInt v 10 = (n, None) \<and> 0 \<le> n \<and> n \<le> 255)"
    by (rule URLValueValid_level)
next
  assume "stringInSlice p TxxParams"
  then show "URLValueValid p v \<longleftrightarrow> (\<exists>n. ParseInt v 10 = (n, None) \<and> 0 \<le> n \<and> n \<le> 999)"
    by (rule URLValueValid_threshold)
next
  assume "v = [] \<and> stringInSlice p pumpParams"
  then show "URLValueValid p v" by (simp add: URLValueValid_def)
qed

lemmas parse_simps = ParseInt_def ParseUint_def digit_val_def maxUint64_def lower_def

lemma parse_samples:
  "ParseInt ''abc'' 10 = (0, Some ErrSyntax)"
  "ParseInt ''-1'' 10 = (-1, None)"
  "ParseInt ''0'' 10 = (0, None)"
  "ParseInt ''255'' 10 = (255, None)"
  "ParseInt ''256'' 10 = (256, None)"
  "ParseInt ''999'' 10 = (999, None)"
  "ParseInt ''1000'' 10 = (1000, None)"
  by (simp_all add: parse_simps)

theorem URLValueValid_classes_witness:
  "\<not> URLValueValid ''V00'' ''abc'' \<and> \<not> URLValueValid ''T01'' ''-1''
   \<and> URLValueValid ''V00'' ''0'' \<and> URLValueValid ''V00'' ''255''
   \<and> \<not> URLValueValid ''V00'' ''256''
   \<and> URLValueValid ''T01'' ''0'' \<and> URLValueValid ''T01'' ''999''
   \<and> \<not> URLValueValid ''T01'' ''1000''
   \<and> URLValueValid ''PUMP_OFF'' []"
proof -
  have v: "stringInSlice ''V00'' VxxParams" and t: "stringInSlice ''T01'' TxxParams"
    and np: "\<not> stringInSlice ''V00'' pumpParams"
    by (simp_all add: VxxParams_def TxxParams_def pumpParams_def)
  have a: "snd (ParseInt ''abc'' 10) \<noteq> None \<and> \<not> (''abc'' = [] \<and> stringInSlice ''V00'' pumpParams)"
    by (simp add: parse_samples)
  have b: "fst (ParseInt ''-1'' 10) < 0 \<and> snd (ParseInt ''-1'' 10) = None"
    by (simp add: parse_samples)
  show ?thesis
    using URLValueValid_classes [of "''abc''" "''V00''"] a
      URLValueValid_classes [of "''-1''" "''T01''"] b
      URLValueValid_classes [of "''0''" "''V00''"]
      URLValueValid_classes [of "''255''" "''V00''"]
      URLValueValid_classes [of "''256''" "''V00''"]
      URLValueValid_classes [of "''0''" "''T01''"]
      URLValueValid_classes [of "''999''" "''T01''"]
      URLValueValid_classes [of "''1000''" "''T01''"]
      URLValueValid_classes [of "[]" "''PUMP_OFF''"] v t
    by (simp add: parse_samples pumpParams_def)
qed

lemma URLValueValid_toggle:
  "(stringInSlice p pumpParams \<longrightarrow> (URLValueValid p v \<longleftrightarrow> v = []))
   \<and> (stringInSlice p VxxParams \<or> stringInSlice p TxxParams \<longrightarrow> \<not> URLValueValid p [])"
proof (intro conjI impI)
  assume pp: "stringInSlice p pumpParams"
  show "URLValueValid p v \<longleftrightarrow> v = []"
  proof (cases "v = []")
    case True
    with pp show ?thesis by (simp add: URLValueValid_def)
  next
    case False
    obtain n e where pe: "ParseInt v 10 = (n, e)" by (cases "ParseInt v 10")
    with False pp show ?thesis
      using toggle_not_other [OF pp] by (cases e) (auto simp add: URLValueValid_def)
  qed
next
  assume "stringInSlice p VxxParams \<or> stringInSlice p TxxParams"
  then have "\<not> stringInSlice p pumpParams"
    using level_not_other threshold_not_other by blast
  then show "\<not> URLValueValid p []" by (simp add: URLValueValid_def)
qed

section \<open>Reading from the port\<close>

lemma polled_0: "polled st 0 = st"
  by (simp add: polled_def)

lemma polled_polled: "polled (polled st a) b = polled st (a + b)"
  by (simp add: polled_def replicate_add)

lemma nreads_polled: "nreads (polled st k) = nreads st + k"
  by (simp add: polled_def)

lemma written_polled: "written (polled st k) = written st @ replicate k ''<GET_ALL;>''"
  by (simp add: polled_def)

lemma points_polled: "points (polled st k) = points st"
  by (simp add: polled_def)

lemma singleOutputRead_step:
  assumes "\<not> write_err e (length (written st))"
  shows "singleOutputRead e st =
           (if outputIsValid (line e (nreads st)) re
            then Some (Inr (line e (nreads st)), polled st 1)
            else singleOutputRead e (polled st 1))"
  using assms by (subst singleOutputRead.simps) (simp add: polled_def Let_def)

lemma singleOutputRead_finds:
  assumes "\<forall>k. \<not> write_err e k"
    and "nreads st \<le> j"
    and "\<forall>i. nreads st \<le> i \<and> i < j \<longrightarrow> \<not> outputIsValid (line e i) re"
    and "outputIsValid (line e j) re"
  shows "singleOutputRead e st = Some (Inr (line e j), polled st (Suc j - nreads st))"
  using assms(2,3)
proof (induction "j - nreads st" arbitrary: st)
  case 0
  then have "nreads st = j" by simp
  then show ?case
    using assms(1,4) by (simp add: singleOutputRead_step)
next
  case (Suc d)
  then have lt: "nreads st < j" by simp
  then have inv: "\<not> outputIsValid (line e (nreads st)) re"
    using Suc.prems by simp
  have "singleOutputRead e (polled st 1)
          = Some (Inr (line e j), polled (polled st 1) (Suc j - nreads (polled st 1)))"
  proof (rule Suc.hyps(1))
    show "d = j - nreads (polled st 1)" using Suc.hyps(2) by (simp add: nreads_polled)
    show "nreads (polled st 1) \<le> j" using lt by (simp add: nreads_polled)
    show "\<forall>i. nreads (polled st 1) \<le> i \<and> i < j \<longrightarrow> \<not> outputIsValid (line e i) re"
      using Suc.prems by (simp add: nreads_polled)
  qed
  moreover have "polled (polled st 1) (Suc j - nreads (polled st 1)) = polled st (Suc j - nreads st)"
    using lt by (simp add: polled_polled nreads_polled Suc_diff_le)
  ultimately show ?case
    using assms(1) inv by (simp add: singleOutputRead_step)
qed

lemma singleOutputRead_returns:
  assumes ret: "singleOutputRead e st = Some r" and nw: "\<forall>k. \<not> write_err e k"
  shows "\<exists>j\<ge>nreads st. r = (Inr (line e j), polled st (Suc j - nreads st))
           \<and> outputIsValid (line e j) re
           \<and> (\<forall>i. nreads st \<le> i \<and> i < j \<longrightarrow> \<not> outputIsValid (line e i) re)"
proof -
  let ?Q = "\<lambda>e st r. \<exists>j\<ge>nreads st. r = (Inr (line e j), polled st (Suc j - nreads st))
           \<and> outputIsValid (line e j) re
           \<and> (\<forall>i. nreads st \<le> i \<and> i < j \<longrightarrow> \<not> outputIsValid (line e i) re)"
  have "(\<forall>k. \<not> write_err e k) \<longrightarrow> ?Q e st r"
  proof (rule singleOutputRead.raw_induct
      [where P = "\<lambda>e st r. (\<forall>k. \<not> write_err e k) \<longrightarrow> ?Q e st r", OF _ ret], goal_cases)
    case (1 sor e st r)
    show ?case
    proof (intro impI)
      assume nw: "\<forall>k. \<not> write_err e k"
      show "?Q e st r"
      proof (cases "outputIsValid (line e (nreads st)) re")
        case True
        with 1(2) nw have "r = (Inr (line e (nreads st)), polled st 1)"
          by (simp add: polled_def Let_def)
        with True show ?thesis by (intro exI [of _ "nreads st"]) auto
      next
        case False
        with 1(2) nw have "sor e (polled st 1) = Some r"
          by (simp add: polled_def Let_def)
        from 1(1) [OF this] nw obtain j where j: "nreads (polled st 1) \<le> j"
          "r = (Inr (line e j), polled (polled st 1) (Suc j - nreads (polled st 1)))"
          "outputIsValid (line e j) re"
          "\<forall>i. nreads (polled st 1) \<le> i \<and> i < j \<longrightarrow> \<not> outputIsValid (line e i) re"
          by blast
        have lt: "nreads st < j" using j(1) by (simp add: nreads_polled)
        have "polled (polled st 1) (Suc j - nreads (polled st 1)) = polled st (Suc j - nreads st)"
          using lt by (simp add: polled_polled nreads_polled Suc_diff_le)
        moreover have "\<forall>i. nreads st \<le> i \<and> i < j \<longrightarrow> \<not> outputIsValid (line e i) re"
        proof (intro allI impI)
          fix i assume i: "nreads st \<le> i \<and> i < j"
          show "\<not> outputIsValid (line e i) re"
          proof (cases "i = nreads st")
            case True
            with False show ?thesis by simp
          next
            case neq: False
            with i have "nreads (polled st 1) \<le> i \<and> i < j" by (simp add: nreads_polled)
            with j(4) show ?thesis by blast
          qed
        qed
        ultimately show ?thesis using j(2,3) lt by (intro exI [of _ j]) simp
      qed
    qed
  qed
  with nw show ?thesis by blast
qed

lemma singleOutputRead_none:
  assumes "\<forall>k. \<not> write_err e k"
    and "\<forall>i\<ge>nreads st. \<not> outputIsValid (line e i) re"
  shows "singleOutputRead e st = None"
proof (cases "singleOutputRead e st")
  case None
  then show ?thesis .
next
  case (Some r)
  from singleOutputRead_returns [OF Some assms(1)] assms(2) show ?thesis by blast
qed

section \<open>The handler of set requests\<close>

lemma URLParamValid_iff:
  "URLParamValid s \<longleftrightarrow>
     stringInSlice s VxxParams \<or> stringInSlice s TxxParams \<or> stringInSlice s pumpParams"
  by (simp add: URLParamValid_def)

text \<open>
  C5. A set request whose parameter is in none of the three registries is answered with
  the error text for the parameter, and a request for a known parameter whose value fails
  validation with the error text for the value; in both cases the world the handler
  leaves is the one it found: nothing was written to the port and nothing read from it.
\<close>

theorem setHandler_rejects_before_io:
  "(\<not> stringInSlice param VxxParams \<and> \<not> stringInSlice param TxxParams
      \<and> \<not> stringInSlice param pumpParams
      \<longrightarrow> setHandler e st param value = Some (Inr (Text ''error: incorrect param!''), st))
   \<and> ((stringInSlice param VxxParams \<or> stringInSlice param TxxParams
        \<or> stringInSlice param pumpParams) \<and> \<not> URLValueValid param value
      \<longrightarrow> setHandler e st param value = Some (Inr (Text ''error: incorrect value!''), st))"
  by (simp add: setHandler_def URLParamValid_iff)

theorem setHandler_rejects_before_io_witness:
  "setHandler (steady sample_line) world0 ''unknownParam'' ''1''
     = Some (Inr (Text ''error: incorrect param!''), world0)
   \<and> written world0 = [] \<and> nreads world0 = 0
   \<and> setHandler (steady sample_line) world0 ''V00'' ''256''
     = Some (Inr (Text ''error: incorrect value!''), world0)"
proof -
  have a: "\<not> stringInSlice ''unknownParam'' VxxParams \<and> \<not> stringInSlice ''unknownParam'' TxxParams
      \<and> \<not> stringInSlice ''unknownParam'' pumpParams"
    by (simp add: VxxParams_def TxxParams_def pumpParams_def)
  have b: "(stringInSlice ''V00'' VxxParams \<or> stringInSlice ''V00'' TxxParams
        \<or> stringInSlice ''V00'' pumpParams) \<and> \<not> URLValueValid ''V00'' ''256''"
    by (simp add: VxxParams_def TxxParams_def URLValueValid_def parse_simps)
  show ?thesis
    using setHandler_rejects_before_io [of "''unknownParam''" "steady sample_line" world0 "''1''"] a
      setHandler_rejects_before_io [of "''V00''" "steady sample_line" world0 "''256''"] b
    by (simp add: world0_def)
qed

text \<open>
  C10. For a toggle parameter validation accepts exactly the empty value, and a toggle
  request with a non-empty value is answered with the error text for the value; for a
  level or threshold parameter the empty value is rejected in the same way.
\<close>

theorem toggle_value_must_be_empty:
  "(stringInSlice p pumpParams \<longrightarrow> (URLValueValid p v \<longleftrightarrow> v = []))
   \<and> (stringInSlice p pumpParams \<and> v \<noteq> []
        \<longrightarrow> setHandler e st p v = Some (Inr (Text ''error: incorrect value!''), st))
   \<and> (stringInSlice p VxxParams \<or> stringInSlice p TxxParams
        \<longrightarrow> \<not> URLValueValid p []
            \<and> setHandler e st p [] = Some (Inr (Text ''error: incorrect value!''), st))"
  using URLValueValid_toggle [of p v] URLValueValid_toggle [of p "[]"]
  by (auto simp add: setHandler_def URLParamValid_iff)

theorem toggle_value_must_be_empty_witness:
  "URLValueValid ''PUMP_ON'' [] \<and> \<not> URLValueValid ''PUMP_OFF'' ''1''
   \<and> setHandler (steady sample_line) world0 ''PUMP_OFF'' ''1''
       = Some (Inr (Text ''error: incorrect value!''), world0)
   \<and> \<not> URLValueValid ''V00'' [] \<and> \<not> URLValueValid ''T01'' []
   \<and> setHandler (steady sample_line) world0 ''T01'' []
       = Some (Inr (Text ''error: incorrect value!''), world0)"
proof -
  have on: "stringInSlice ''PUMP_ON'' pumpParams" and off: "stringInSlice ''PUMP_OFF'' pumpParams"
    and v: "stringInSlice ''V00'' VxxParams" and t: "stringInSlice ''T01'' TxxParams"
    by (simp_all add: VxxParams_def TxxParams_def pumpParams_def)
  have ne: "''1'' \<noteq> []" by simp
  show ?thesis
    using toggle_value_must_be_empty [of "''PUMP_ON''" "[]" "steady sample_line" world0] on
      toggle_value_must_be_empty [of "''PUMP_OFF''" "''1''" "steady sample_line" world0] off ne
      toggle_value_must_be_empty [of "''V00''" "[]" "steady sample_line" world0] v
      toggle_value_must_be_empty [of "''T01''" "[]" "steady sample_line" world0] t
    by simp
qed

subsection \<open>The sample lines\<close>

lemma sample_line_decodes:
  "\<not> isl (outputToMap sample_line) \<and> field_of sample_line ''PUMP'' = Some 1
   \<and> field_of sample_line ''V00'' = Some 255"
  by code_simp

lemma pump_off_line_valid: "outputIsValid pump_off_line re"
  by code_simp

lemma pump_off_line_decodes:
  "\<not> isl (outputToMap pump_off_line) \<and> field_of pump_off_line ''PUMP'' = Some 0"
  by code_simp

lemma garbled_line_valid: "outputIsValid garbled_line re"
  by code_simp

lemma garbled_line_panics: "panic_of garbled_line = Some (PanicParse ErrSyntax)"
  by code_simp

lemma short_line_invalid:
  "169 \<le> length short_line \<and> length (FindAll re short_line) = 20 \<and> \<not> outputIsValid short_line re"
  by code_simp

lemma sample_line_segments:
  "butlast (Split sample_line CHR '';'') = [] @ [''V00=ff''] @ sample_rest"
  by code_simp

lemma sample_rest_names: "\<forall>g\<in>set sample_rest. hd (Split g CHR ''='') \<noteq> ''V00''"
  by code_simp

lemma decodes_ex:
  assumes "\<not> isl (outputToMap s)"
  shows "\<exists>a. outputToMap s = Inr a \<and> (\<forall>name. a name = field_of s name)"
  using assms by (cases "outputToMap s") (simp_all add: field_of_def)

lemma panic_of_eq: "panic_of s = Some f \<longleftrightarrow> outputToMap s = Inl f"
  by (cases "outputToMap s") (simp_all add: panic_of_def)

section \<open>The polling loops\<close>

lemma pump_loop_unroll:
  assumes "singleOutputRead e st = Some (Inr out, st1)"
  shows "pump_loop e param st =
           (case outputToMap out of
              Inl f \<Rightarrow> Some (Inl f, st1)
            | Inr answer \<Rightarrow>
                if (param = ''PUMP_ON'' \<and> answer ''PUMP'' = Some 1)
                   \<or> (param = ''PUMP_OFF'' \<and> answer ''PUMP'' = Some 0)
                then Some (Inr (Json answer), st1)
                else pump_loop e param st1)"
  using assms by (subst pump_loop.simps) (simp split: sum.splits)

lemma level_loop_unroll:
  assumes "singleOutputRead e st = Some (Inr out, st1)"
  shows "level_loop e param valueToInt st =
           (case outputToMap out of
              Inl f \<Rightarrow> Some (Inl f, st1)
            | Inr answer \<Rightarrow>
                if answer param = Some valueToInt then Some (Inr (Json answer), st1)
                else level_loop e param valueToInt st1)"
  using assms by (subst level_loop.simps) (simp split: sum.splits)

lemma pump_condition:
  assumes "stringInSlice param pumpParams"
  shows "(param = ''PUMP_ON'' \<and> answer ''PUMP'' = Some 1)
           \<or> (param = ''PUMP_OFF'' \<and> answer ''PUMP'' = Some 0)
         \<longleftrightarrow> answer ''PUMP'' = Some (pump_target param)"
  using assms by (auto simp add: stringInSlice_set pumpParams_def pump_target_def)

lemma first_valid_line:
  assumes "nreads st \<le> j" and "outputIsValid (line e j) re"
  obtains k where "nreads st \<le> k" "k \<le> j" "outputIsValid (line e k) re"
    "\<forall>i. nreads st \<le> i \<and> i < k \<longrightarrow> \<not> outputIsValid (line e i) re"
proof -
  define k where "k = (LEAST i. nreads st \<le> i \<and> outputIsValid (line e i) re)"
  have ex: "nreads st \<le> j \<and> outputIsValid (line e j) re" using assms by simp
  have "nreads st \<le> k \<and> outputIsValid (line e k) re"
    unfolding k_def by (rule LeastI [of _ j]) (rule ex)
  moreover have "k \<le> j" unfolding k_def by (rule Least_le) (rule ex)
  moreover have "\<forall>i. nreads st \<le> i \<and> i < k \<longrightarrow> \<not> outputIsValid (line e i) re"
    unfolding k_def using not_less_Least by blast
  ultimately show ?thesis using that by blast
qed

lemma pump_loop_finds:
  assumes nw: "\<forall>k. \<not> write_err e k"
    and pp: "stringInSlice param pumpParams"
    and hit: "outputIsValid (line e j) re" "outputToMap (line e j) = Inr a"
      "a ''PUMP'' = Some (pump_target param)"
  shows "nreads st \<le> j \<Longrightarrow>
         \<forall>i. nreads st \<le> i \<and> i < j \<longrightarrow>
           \<not> outputIsValid (line e i) re
           \<or> (\<exists>m. outputToMap (line e i) = Inr m \<and> m ''PUMP'' \<noteq> Some (pump_target param)) \<Longrightarrow>
         pump_loop e param st = Some (Inr (Json a), polled st (Suc j - nreads st))"
proof (induction "j - nreads st" arbitrary: st rule: less_induct)
  case less
  obtain k where k: "nreads st \<le> k" "k \<le> j" "outputIsValid (line e k) re"
    "\<forall>i. nreads st \<le> i \<and> i < k \<longrightarrow> \<not> outputIsValid (line e i) re"
    using first_valid_line [OF less.prems(1) hit(1)] by blast
  have read: "singleOutputRead e st = Some (Inr (line e k), polled st (Suc k - nreads st))"
    by (rule singleOutputRead_finds [OF nw k(1) k(4) k(3)])
  show ?case
  proof (cases "k = j")
    case True
    have c: "(param = ''PUMP_ON'' \<and> a ''PUMP'' = Some 1)
               \<or> (param = ''PUMP_OFF'' \<and> a ''PUMP'' = Some 0)"
      using hit(3) pump_condition [OF pp, of a] by blast
    have "pump_loop e param st = Some (Inr (Json a), polled st (Suc k - nreads st))"
      using hit(2) True
      by (subst pump_loop_unroll [OF read]) (simp only: sum.case c if_True)
    with True show ?thesis by simp
  next
    case False
    with k(2) have lt: "k < j" by simp
    with k(1,3) less.prems(2) obtain m where m: "outputToMap (line e k) = Inr m"
      "m ''PUMP'' \<noteq> Some (pump_target param)" by blast
    let ?st1 = "polled st (Suc k - nreads st)"
    have nr: "nreads ?st1 = Suc k" using k(1) by (simp add: nreads_polled)
    have nc: "\<not> ((param = ''PUMP_ON'' \<and> m ''PUMP'' = Some 1)
               \<or> (param = ''PUMP_OFF'' \<and> m ''PUMP'' = Some 0))"
      using m(2) pump_condition [OF pp, of m] by blast
    have step: "pump_loop e param st = pump_loop e param ?st1"
      by (subst pump_loop_unroll [OF read]) (simp only: m(1) sum.case nc if_False)
    have "pump_loop e param ?st1 = Some (Inr (Json a), polled ?st1 (Suc j - nreads ?st1))"
    proof (rule less.hyps)
      show "j - nreads ?st1 < j - nreads st" using nr k(1) lt by simp
      show "nreads ?st1 \<le> j" using nr lt by simp
      show "\<forall>i. nreads ?st1 \<le> i \<and> i < j \<longrightarrow>
           \<not> outputIsValid (line e i) re
           \<or> (\<exists>m. outputToMap (line e i) = Inr m \<and> m ''PUMP'' \<noteq> Some (pump_target param))"
        using less.prems(2) nr k(1) by simp
    qed
    moreover have "Suc k - nreads st + (Suc j - Suc k) = Suc j - nreads st"
      using k(1) lt by simp
    then have "polled ?st1 (Suc j - nreads ?st1) = polled st (Suc j - nreads st)"
      by (simp only: nr polled_polled)
    ultimately show ?thesis using step by simp
  qed
qed

lemma pump_loop_returns:
  assumes ret: "pump_loop e param st = Some r" and nw: "\<forall>k. \<not> write_err e k"
  shows "\<exists>j\<ge>nreads st. snd r = polled st (Suc j - nreads st)
           \<and> outputIsValid (line e j) re
           \<and> (case outputToMap (line e j) of
                 Inl f \<Rightarrow> fst r = Inl f
               | Inr a \<Rightarrow> fst r = Inr (Json a)
                   \<and> ((param = ''PUMP_ON'' \<and> a ''PUMP'' = Some 1)
                      \<or> (param = ''PUMP_OFF'' \<and> a ''PUMP'' = Some 0)))"
proof -
  let ?Q = "\<lambda>e param st r. \<exists>j\<ge>nreads st. snd r = polled st (Suc j - nreads st)
           \<and> outputIsValid (line e j) re
           \<and> (case outputToMap (line e j) of
                 Inl f \<Rightarrow> fst r = Inl f
               | Inr a \<Rightarrow> fst r = Inr (Json a)
                   \<and> ((param = ''PUMP_ON'' \<and> a ''PUMP'' = Some 1)
                      \<or> (param = ''PUMP_OFF'' \<and> a ''PUMP'' = Some 0)))"
  have "(\<forall>k. \<not> write_err e k) \<longrightarrow> ?Q e param st r"
  proof (rule pump_loop.raw_induct
      [where P = "\<lambda>e param st r. (\<forall>k. \<not> write_err e k) \<longrightarrow> ?Q e param st r", OF _ ret],
      goal_cases)
    case (1 loop e param st r)
    show ?case
    proof (intro impI)
      assume nw: "\<forall>k. \<not> write_err e k"
      from 1(2) obtain x where x: "singleOutputRead e st = Some x"
        by (cases "singleOutputRead e st") simp_all
      from singleOutputRead_returns [OF x nw] obtain j where j: "nreads st \<le> j"
        "x = (Inr (line e j), polled st (Suc j - nreads st))" "outputIsValid (line e j) re"
        by blast
      let ?st1 = "polled st (Suc j - nreads st)"
      have nr: "nreads ?st1 = Suc j" using j(1) by (simp add: nreads_polled)
      show "?Q e param st r"
      proof (cases "outputToMap (line e j)")
        case (Inl f)
        with 1(2) x j(2) have "r = (Inl f, ?st1)" by simp
        with Inl j(1,3) show ?thesis by (intro exI [of _ j]) simp
      next
        case (Inr a)
        show ?thesis
        proof (cases "(param = ''PUMP_ON'' \<and> a ''PUMP'' = Some 1)
                      \<or> (param = ''PUMP_OFF'' \<and> a ''PUMP'' = Some 0)")
          case True
          with 1(2) x j(2) Inr have "r = (Inr (Json a), ?st1)" by auto
          with Inr True j(1,3) show ?thesis by (intro exI [of _ j]) simp
        next
          case False
          with 1(2) x j(2) Inr have "loop e param ?st1 = Some r" by auto
          from 1(1) [OF this] nw obtain i where i: "nreads ?st1 \<le> i"
            "snd r = polled ?st1 (Suc i - nreads ?st1)" "outputIsValid (line e i) re"
            "(case outputToMap (line e i) of
                 Inl f \<Rightarrow> fst r = Inl f
               | Inr a \<Rightarrow> fst r = Inr (Json a)
                   \<and> ((param = ''PUMP_ON'' \<and> a ''PUMP'' = Some 1)
                      \<or> (param = ''PUMP_OFF'' \<and> a ''PUMP'' = Some 0)))"
            by blast
          have lt: "j < i" using i(1) nr by simp
          have "Suc j - nreads st + (Suc i - Suc j) = Suc i - nreads st"
            using j(1) lt by simp
          then have "polled ?st1 (Suc i - nreads ?st1) = polled st (Suc i - nreads st)"
            by (simp only: nr polled_polled)
          with i(2) have "snd r = polled st (Suc i - nreads st)" by simp
          moreover have "nreads st \<le> i" using j(1) lt by simp
          ultimately show ?thesis using i(3,4) by (intro exI [of _ i]) simp
        qed
      qed
    qed
  qed
  with nw show ?thesis by blast
qed

lemma pump_loop_waits:
  assumes nw: "\<forall>k. \<not> write_err e k"
    and pp: "stringInSlice param pumpParams"
    and miss: "\<forall>i\<ge>nreads st.
           \<not> outputIsValid (line e i) re
           \<or> (\<exists>m. outputToMap (line e i) = Inr m \<and> m ''PUMP'' \<noteq> Some (pump_target param))"
  shows "pump_loop e param st = None"
proof (cases "pump_loop e param st")
  case None
  then show ?thesis .
next
  case (Some r)
  from pump_loop_returns [OF Some nw] obtain j where j: "nreads st \<le> j"
    "outputIsValid (line e j) re"
    "(case outputToMap (line e j) of
         Inl f \<Rightarrow> fst r = Inl f
       | Inr a \<Rightarrow> fst r = Inr (Json a)
           \<and> ((param = ''PUMP_ON'' \<and> a ''PUMP'' = Some 1)
              \<or> (param = ''PUMP_OFF'' \<and> a ''PUMP'' = Some 0)))"
    by blast
  from miss j(1,2) obtain m where m: "outputToMap (line e j) = Inr m"
    "m ''PUMP'' \<noteq> Some (pump_target param)" by blast
  with j(3) pump_condition [OF pp, of m] show ?thesis by simp
qed

text \<open>
  C7. For a toggle parameter, on a port that does not fail, polling returns at the first
  reply whose decoded field \<open>PUMP\<close> equals the expected state (1 for \<open>PUMP_ON\<close>, 0 for
  \<open>PUMP_OFF\<close>), with that frame, when every earlier reply is either skipped as invalid or
  decodes to a frame with another state; and when every reply from now on is of that
  kind, polling does not return.
\<close>

theorem pump_loop_first_match:
  "(\<forall>k. \<not> write_err e k) \<and> stringInSlice param pumpParams \<longrightarrow>
     (nreads st \<le> j \<and> outputIsValid (line e j) re \<and> outputToMap (line e j) = Inr a
        \<and> a ''PUMP'' = Some (pump_target param)
        \<and> (\<forall>i. nreads st \<le> i \<and> i < j \<longrightarrow>
              \<not> outputIsValid (line e i) re
              \<or> (\<exists>m. outputToMap (line e i) = Inr m \<and> m ''PUMP'' \<noteq> Some (pump_target param)))
      \<longrightarrow> pump_loop e param st = Some (Inr (Json a), polled st (Suc j - nreads st)))
     \<and> ((\<forall>i\<ge>nreads st.
              \<not> outputIsValid (line e i) re
              \<or> (\<exists>m. outputToMap (line e i) = Inr m \<and> m ''PUMP'' \<noteq> Some (pump_target param)))
      \<longrightarrow> pump_loop e param st = None)"
proof (intro impI conjI)
  assume h: "(\<forall>k. \<not> write_err e k) \<and> stringInSlice param pumpParams"
  assume "nreads st \<le> j \<and> outputIsValid (line e j) re \<and> outputToMap (line e j) = Inr a
        \<and> a ''PUMP'' = Some (pump_target param)
        \<and> (\<forall>i. nreads st \<le> i \<and> i < j \<longrightarrow>
              \<not> outputIsValid (line e i) re
              \<or> (\<exists>m. outputToMap (line e i) = Inr m \<and> m ''PUMP'' \<noteq> Some (pump_target param)))"
  with h show "pump_loop e param st = Some (Inr (Json a), polled st (Suc j - nreads st))"
    using pump_loop_finds [of e param j a st] by blast
next
  assume h: "(\<forall>k. \<not> write_err e k) \<and> stringInSlice param pumpParams"
  assume "\<forall>i\<ge>nreads st.
              \<not> outputIsValid (line e i) re
              \<or> (\<exists>m. outputToMap (line e i) = Inr m \<and> m ''PUMP'' \<noteq> Some (pump_target param))"
  with h show "pump_loop e param st = None"
    using pump_loop_waits [of e param st] by blast
qed

theorem pump_loop_first_match_witness:
  "(\<exists>a. outputToMap sample_line = Inr a \<and> a ''PUMP'' = Some 1
        \<and> pump_loop settling ''PUMP_ON'' world0 = Some (Inr (Json a), polled world0 3))
   \<and> pump_loop (steady pump_off_line) ''PUMP_ON'' world0 = None
   \<and> (\<exists>a. outputToMap pump_off_line = Inr a \<and> a ''PUMP'' = Some 0
        \<and> pump_loop settling ''PUMP_OFF'' world0 = Some (Inr (Json a), polled world0 1))"
proof -
  have "\<not> isl (outputToMap sample_line)" using sample_line_decodes by (rule conjunct1)
  from decodes_ex [OF this]
  obtain a where a: "outputToMap sample_line = Inr a" "\<And>name. a name = field_of sample_line name"
    by blast
  have "\<not> isl (outputToMap pump_off_line)" using pump_off_line_decodes by (rule conjunct1)
  from decodes_ex [OF this]
  obtain b where b: "outputToMap pump_off_line = Inr b"
    "\<And>name. b name = field_of pump_off_line name"
    by blast
  have a1: "a ''PUMP'' = Some 1" using a(2) sample_line_decodes by simp
  have b0: "b ''PUMP'' = Some 0" using b(2) pump_off_line_decodes by simp
  have on: "stringInSlice ''PUMP_ON'' pumpParams" and off: "stringInSlice ''PUMP_OFF'' pumpParams"
    by (simp_all add: pumpParams_def)
  have t_on: "pump_target ''PUMP_ON'' = 1" and t_off: "pump_target ''PUMP_OFF'' = 0"
    by (simp_all add: pump_target_def)
  have quiet: "\<forall>k. \<not> write_err settling k" "\<forall>k. \<not> write_err (steady pump_off_line) k"
    by (simp_all add: settling_def steady_def)
  have l: "line settling 2 = sample_line" "line settling 0 = pump_off_line"
    "\<And>i. i < 2 \<Longrightarrow> line settling i = pump_off_line"
    "\<And>i. line (steady pump_off_line) i = pump_off_line"
    by (simp_all add: settling_def steady_def)
  have n0: "nreads world0 = 0" by (simp add: world0_def)
  have first: "pump_loop settling ''PUMP_ON'' world0 = Some (Inr (Json a), polled world0 3)"
  proof -
    have "nreads world0 \<le> 2 \<and> outputIsValid (line settling 2) re
        \<and> outputToMap (line settling 2) = Inr a
        \<and> a ''PUMP'' = Some (pump_target ''PUMP_ON'')
        \<and> (\<forall>i. nreads world0 \<le> i \<and> i < 2 \<longrightarrow>
              \<not> outputIsValid (line settling i) re
              \<or> (\<exists>m. outputToMap (line settling i) = Inr m
                    \<and> m ''PUMP'' \<noteq> Some (pump_target ''PUMP_ON'')))"
      using a(1) a1 b(1) b0 sample_line_valid by (simp add: l n0 t_on)
    with quiet(1) on show ?thesis
      using pump_loop_first_match [of settling "''PUMP_ON''" world0 2 a] by (simp add: n0)
  qed
  have never: "pump_loop (steady pump_off_line) ''PUMP_ON'' world0 = None"
  proof -
    have "\<forall>i\<ge>nreads world0.
              \<not> outputIsValid (line (steady pump_off_line) i) re
              \<or> (\<exists>m. outputToMap (line (steady pump_off_line) i) = Inr m
                    \<and> m ''PUMP'' \<noteq> Some (pump_target ''PUMP_ON''))"
      using b(1) b0 by (simp add: l t_on)
    with quiet(2) on show ?thesis
      using pump_loop_first_match [of "steady pump_off_line" "''PUMP_ON''" world0] by blast
  qed
  have at_once: "pump_loop settling ''PUMP_OFF'' world0 = Some (Inr (Json b), polled world0 1)"
  proof -
    have "nreads world0 \<le> 0 \<and> outputIsValid (line settling 0) re
        \<and> outputToMap (line settling 0) = Inr b
        \<and> b ''PUMP'' = Some (pump_target ''PUMP_OFF'')
        \<and> (\<forall>i. nreads world0 \<le> i \<and> i < 0 \<longrightarrow>
              \<not> outputIsValid (line settling i) re
              \<or> (\<exists>m. outputToMap (line settling i) = Inr m
                    \<and> m ''PUMP'' \<noteq> Some (pump_target ''PUMP_OFF'')))"
      using b(1) b0 pump_off_line_valid by (simp add: l n0 t_off)
    with quiet(1) off show ?thesis
      using pump_loop_first_match [of settling "''PUMP_OFF''" world0 0 b] by (simp add: n0)
  qed
  show ?thesis using a(1) a1 b(1) b0 first never at_once by blast
qed

section \<open>The telemetry cycle\<close>

lemma DB_cycle_reads:
  assumes "\<not> (write_err e (length (written st)) \<and> open_err e (reopened st))"
  shows "DB_cycle e st =
           (let st2 = (if write_err e (length (written st))
                       then st\<lparr>written := written st @ [''<GET_ALL;>''],
                              reopened := Suc (reopened st)\<rparr>
                       else st\<lparr>written := written st @ [''<GET_ALL;>'']\<rparr>);
                st3 = st2\<lparr>nreads := Suc (nreads st)\<rparr>
            in if outputIsValid (line e (nreads st)) re then
                 (case outputToMap (line e (nreads st)) of
                    Inl f \<Rightarrow> (Inl f, st3)
                  | Inr outputMap \<Rightarrow>
                      if db_err e (length (points st))
                      then (Inl FatalDB, st3\<lparr>points := points st @ [outputMap]\<rparr>)
                      else (Inr (), st3\<lparr>points := points st @ [outputMap]\<rparr>))
               else (Inr (), st3))"
  using assms by (auto simp add: DB_cycle_def Let_def split: sum.splits)

text \<open>
  C8, as stated, fails: a line that passes validation and has a field that does not
  parse makes the cycle panic in \<open>outputToMap\<close>, before anything is passed to the
  database.
\<close>

theorem DB_cycle_counterexample:
  "outputIsValid garbled_line re
   \<and> DB_cycle (steady garbled_line) world0
       = (Inl (PanicParse ErrSyntax), world0\<lparr>written := [''<GET_ALL;>''], nreads := 1\<rparr>)
   \<and> points (snd (DB_cycle (steady garbled_line) world0)) = []"
proof -
  have "outputToMap garbled_line = Inl (PanicParse ErrSyntax)"
    using garbled_line_panics by (simp add: panic_of_eq)
  then show ?thesis
    using garbled_line_valid by (simp add: DB_cycle_def steady_def world0_def)
qed

text \<open>
  C8, amended. In every telemetry cycle that reads a line, a frame is passed to the
  database exactly when the line passes validation and decodes, and it is the decoded
  frame; when the line fails validation the cycle ends normally without a database write
  and the loop goes on with the next cycle; when the line passes validation and does not
  decode, the cycle panics without a database write.
\<close>

theorem DB_cycle_sink:
  "\<not> (write_err e (length (written st)) \<and> open_err e (reopened st)) \<longrightarrow>
     (points (snd (DB_cycle e st)) \<noteq> points st
        \<longleftrightarrow> outputIsValid (line e (nreads st)) re \<and> \<not> isl (outputToMap (line e (nreads st))))
     \<and> (outputIsValid (line e (nreads st)) re \<and> outputToMap (line e (nreads st)) = Inr a
          \<longrightarrow> points (snd (DB_cycle e st)) = points st @ [a])
     \<and> (\<not> outputIsValid (line e (nreads st)) re
          \<longrightarrow> fst (DB_cycle e st) = Inr () \<and> points (snd (DB_cycle e st)) = points st
              \<and> DB_routine e st = DB_routine e (snd (DB_cycle e st)))
     \<and> (outputIsValid (line e (nreads st)) re \<and> outputToMap (line e (nreads st)) = Inl f
          \<longrightarrow> fst (DB_cycle e st) = Inl f \<and> points (snd (DB_cycle e st)) = points st)"
proof (intro impI)
  assume h: "\<not> (write_err e (length (written st)) \<and> open_err e (reopened st))"
  note c = DB_cycle_reads [OF h]
  have 1: "points (snd (DB_cycle e st)) \<noteq> points st
        \<longleftrightarrow> outputIsValid (line e (nreads st)) re \<and> \<not> isl (outputToMap (line e (nreads st)))"
    unfolding c by (cases "outputToMap (line e (nreads st))") (simp_all add: Let_def)
  have 2: "outputIsValid (line e (nreads st)) re \<and> outputToMap (line e (nreads st)) = Inr a
          \<longrightarrow> points (snd (DB_cycle e st)) = points st @ [a]"
    unfolding c by (simp add: Let_def)
  have 3: "\<not> outputIsValid (line e (nreads st)) re
          \<longrightarrow> fst (DB_cycle e st) = Inr () \<and> points (snd (DB_cycle e st)) = points st
              \<and> DB_routine e st = DB_routine e (snd (DB_cycle e st))"
  proof
    assume inv: "\<not> outputIsValid (line e (nreads st)) re"
    then have a: "fst (DB_cycle e st) = Inr ()" and b: "points (snd (DB_cycle e st)) = points st"
      unfolding c by (simp_all add: Let_def)
    obtain x st1 where r: "DB_cycle e st = (x, st1)" by (cases "DB_cycle e st")
    with a have "x = Inr ()" by simp
    with r have "DB_routine e st = DB_routine e (snd (DB_cycle e st))"
      by (subst DB_routine.simps) simp
    with a b show "fst (DB_cycle e st) = Inr () \<and> points (snd (DB_cycle e st)) = points st
              \<and> DB_routine e st = DB_routine e (snd (DB_cycle e st))" by simp
  qed
  have 4: "outputIsValid (line e (nreads st)) re \<and> outputToMap (line e (nreads st)) = Inl f
          \<longrightarrow> fst (DB_cycle e st) = Inl f \<and> points (snd (DB_cycle e st)) = points st"
    unfolding c by (simp add: Let_def)
  from 1 2 3 4 show "(points (snd (DB_cycle e st)) \<noteq> points st
        \<longleftrightarrow> outputIsValid (line e (nreads st)) re \<and> \<not> isl (outputToMap (line e (nreads st))))
     \<and> (outputIsValid (line e (nreads st)) re \<and> outputToMap (line e (nreads st)) = Inr a
          \<longrightarrow> points (snd (DB_cycle e st)) = points st @ [a])
     \<and> (\<not> outputIsValid (line e (nreads st)) re
          \<longrightarrow> fst (DB_cycle e st) = Inr () \<and> points (snd (DB_cycle e st)) = points st
              \<and> DB_routine e st = DB_routine e (snd (DB_cycle e st)))
     \<and> (outputIsValid (line e (nreads st)) re \<and> outputToMap (line e (nreads st)) = Inl f
          \<longrightarrow> fst (DB_cycle e st) = Inl f \<and> points (snd (DB_cycle e st)) = points st)"
    by (intro conjI)
qed

theorem DB_cycle_sink_witness:
  "fst (DB_cycle (steady short_line) world0) = Inr ()
   \<and> points (snd (DB_cycle (steady short_line) world0)) = []
   \<and> DB_routine (steady short_line) world0
       = DB_routine (steady short_line) (snd (DB_cycle (steady short_line) world0))
   \<and> (\<exists>a. outputToMap sample_line = Inr a
         \<and> points (snd (DB_cycle (steady sample_line) world0)) = [a])
   \<and> fst (DB_cycle (steady garbled_line) world0) = Inl (PanicParse ErrSyntax)
   \<and> points (snd (DB_cycle (steady garbled_line) world0)) = []"
proof -
  have "\<not> isl (outputToMap sample_line)" using sample_line_decodes by (rule conjunct1)
  from decodes_ex [OF this] obtain a where a: "outputToMap sample_line = Inr a" by blast
  have g: "outputToMap garbled_line = Inl (PanicParse ErrSyntax)"
    using garbled_line_panics by (simp add: panic_of_eq)
  have q: "\<And>s. \<not> (write_err (steady s) (length (written world0))
                    \<and> open_err (steady s) (reopened world0))"
    by (simp add: steady_def)
  have l: "\<And>s. line (steady s) (nreads world0) = s" by (simp add: steady_def)
  have p0: "points world0 = []" by (simp add: world0_def)
  have inv: "\<not> outputIsValid short_line re" using short_line_invalid by simp
  have "fst (DB_cycle (steady short_line) world0) = Inr ()
      \<and> points (snd (DB_cycle (steady short_line) world0)) = []
      \<and> DB_routine (steady short_line) world0
          = DB_routine (steady short_line) (snd (DB_cycle (steady short_line) world0))"
    using DB_cycle_sink [of "steady short_line" world0] q [of short_line] inv
    by (simp add: l p0)
  moreover have "points (snd (DB_cycle (steady sample_line) world0)) = [a]"
    using DB_cycle_sink [of "steady sample_line" world0 a] q [of sample_line] a sample_line_valid
    by (simp add: l p0)
  moreover have "fst (DB_cycle (steady garbled_line) world0) = Inl (PanicParse ErrSyntax)
      \<and> points (snd (DB_cycle (steady garbled_line) world0)) = []"
    using DB_cycle_sink [of "steady garbled_line" world0 _ "PanicParse ErrSyntax"]
      q [of garbled_line] g garbled_line_valid
    by (simp add: l p0)
  ultimately show ?thesis using a by blast
qed

section \<open>Decode failures while polling\<close>

lemma level_loop_returns:
  assumes ret: "level_loop e param v st = Some r" and nw: "\<forall>k. \<not> write_err e k"
  shows "\<exists>j\<ge>nreads st. snd r = polled st (Suc j - nreads st)
           \<and> outputIsValid (line e j) re
           \<and> (case outputToMap (line e j) of
                 Inl f \<Rightarrow> fst r = Inl f
               | Inr a \<Rightarrow> fst r = Inr (Json a) \<and> a param = Some v)"
proof -
  let ?Q = "\<lambda>e param v st r. \<exists>j\<ge>nreads st. snd r = polled st (Suc j - nreads st)
           \<and> outputIsValid (line e j) re
           \<and> (case outputToMap (line e j) of
                 Inl f \<Rightarrow> fst r = Inl f
               | Inr a \<Rightarrow> fst r = Inr (Json a) \<and> a param = Some v)"
  have "(\<forall>k. \<not> write_err e k) \<longrightarrow> ?Q e param v st r"
  proof (rule level_loop.raw_induct
      [where P = "\<lambda>e param v st r. (\<forall>k. \<not> write_err e k) \<longrightarrow> ?Q e param v st r", OF _ ret],
      goal_cases)
    case (1 loop e param v st r)
    show ?case
    proof (intro impI)
      assume nw: "\<forall>k. \<not> write_err e k"
      from 1(2) obtain x where x: "singleOutputRead e st = Some x"
        by (cases "singleOutputRead e st") simp_all
      from singleOutputRead_returns [OF x nw] obtain j where j: "nreads st \<le> j"
        "x = (Inr (line e j), polled st (Suc j - nreads st))" "outputIsValid (line e j) re"
        by blast
      let ?st1 = "polled st (Suc j - nreads st)"
      have nr: "nreads ?st1 = Suc j" using j(1) by (simp add: nreads_polled)
      show "?Q e param v st r"
      proof (cases "outputToMap (line e j)")
        case (Inl f)
        with 1(2) x j(2) have "r = (Inl f, ?st1)" by simp
        with Inl j(1,3) show ?thesis by (intro exI [of _ j]) simp
      next
        case (Inr a)
        show ?thesis
        proof (cases "a param = Some v")
          case True
          with 1(2) x j(2) Inr have "r = (Inr (Json a), ?st1)" by auto
          with Inr True j(1,3) show ?thesis by (intro exI [of _ j]) simp
        next
          case False
          with 1(2) x j(2) Inr have "loop e param v ?st1 = Some r" by auto
          from 1(1) [OF this] nw obtain i where i: "nreads ?st1 \<le> i"
            "snd r = polled ?st1 (Suc i - nreads ?st1)" "outputIsValid (line e i) re"
            "(case outputToMap (line e i) of
                 Inl f \<Rightarrow> fst r = Inl f
               | Inr a \<Rightarrow> fst r = Inr (Json a) \<and> a param = Some v)"
            by blast
          have lt: "j < i" using i(1) nr by simp
          have "Suc j - nreads st + (Suc i - Suc j) = Suc i - nreads st"
            using j(1) lt by simp
          then have "polled ?st1 (Suc i - nreads ?st1) = polled st (Suc i - nreads st)"
            by (simp only: nr polled_polled)
          with i(2) have "snd r = polled st (Suc i - nreads st)" by simp
          moreover have "nreads st \<le> i" using j(1) lt by simp
          ultimately show ?thesis using i(3,4) by (intro exI [of _ i]) simp
        qed
      qed
    qed
  qed
  with nw show ?thesis by blast
qed

lemma singleOutputRead_skips:
  assumes "\<forall>k. \<not> write_err e k" and "\<not> outputIsValid (line e (nreads st)) re"
  shows "singleOutputRead e st = singleOutputRead e (polled st 1)"
  using assms by (simp add: singleOutputRead_step)

lemma singleOutputRead_takes:
  assumes "\<forall>k. \<not> write_err e k" and "outputIsValid (line e (nreads st)) re"
  shows "singleOutputRead e st = Some (Inr (line e (nreads st)), polled st 1)"
  using assms by (simp add: singleOutputRead_step)

lemma loops_skip_invalid:
  assumes "\<forall>k. \<not> write_err e k" and "\<not> outputIsValid (line e (nreads st)) re"
  shows "level_loop e param v st = level_loop e param v (polled st 1)"
    and "pump_loop e param st = pump_loop e param (polled st 1)"
proof -
  note s = singleOutputRead_skips [OF assms]
  show "level_loop e param v st = level_loop e param v (polled st 1)"
    by (subst level_loop.simps, subst (2) level_loop.simps) (simp only: s)
  show "pump_loop e param st = pump_loop e param (polled st 1)"
    by (subst pump_loop.simps, subst (2) pump_loop.simps) (simp only: s)
qed

lemma loops_panic:
  assumes "\<forall>k. \<not> write_err e k" and "outputIsValid (line e (nreads st)) re"
    and "outputToMap (line e (nreads st)) = Inl f"
  shows "level_loop e param v st = Some (Inl f, polled st 1)"
    and "pump_loop e param st = Some (Inl f, polled st 1)"
proof -
  note s = singleOutputRead_takes [OF assms(1,2)]
  show "level_loop e param v st = Some (Inl f, polled st 1)"
    by (subst level_loop_unroll [OF s]) (simp add: assms(3))
  show "pump_loop e param st = Some (Inl f, polled st 1)"
    by (subst pump_loop_unroll [OF s]) (simp add: assms(3))
qed

lemma loops_panic_only:
  assumes nw: "\<forall>k. \<not> write_err e k"
    and "level_loop e param v st = Some (Inl f, st1) \<or> pump_loop e param st = Some (Inl f, st1)"
  shows "\<exists>j\<ge>nreads st. outputIsValid (line e j) re \<and> outputToMap (line e j) = Inl f
           \<and> st1 = polled st (Suc j - nreads st)"
  using assms(2)
proof
  assume "level_loop e param v st = Some (Inl f, st1)"
  from level_loop_returns [OF this nw] obtain j where j: "nreads st \<le> j"
    "snd (Inl f :: failure + response, st1) = polled st (Suc j - nreads st)"
    "outputIsValid (line e j) re"
    "(case outputToMap (line e j) of
         Inl f' \<Rightarrow> fst (Inl f :: failure + response, st1) = Inl f'
       | Inr a \<Rightarrow> fst (Inl f :: failure + response, st1) = Inr (Json a) \<and> a param = Some v)"
    by blast
  from j(4) have "outputToMap (line e j) = Inl f"
    by (cases "outputToMap (line e j)") simp_all
  with j(1,2,3) show ?thesis by auto
next
  assume "pump_loop e param st = Some (Inl f, st1)"
  from pump_loop_returns [OF this nw] obtain j where j: "nreads st \<le> j"
    "snd (Inl f :: failure + response, st1) = polled st (Suc j - nreads st)"
    "outputIsValid (line e j) re"
    "(case outputToMap (line e j) of
         Inl f' \<Rightarrow> fst (Inl f :: failure + response, st1) = Inl f'
       | Inr a \<Rightarrow> fst (Inl f :: failure + response, st1) = Inr (Json a)
           \<and> ((param = ''PUMP_ON'' \<and> a ''PUMP'' = Some 1)
              \<or> (param = ''PUMP_OFF'' \<and> a ''PUMP'' = Some 0)))"
    by blast
  from j(4) have "outputToMap (line e j) = Inl f"
    by (cases "outputToMap (line e j)") simp_all
  with j(1,2,3) show ?thesis by auto
qed

text \<open>
  C9, as stated, fails: a reply that passes validation and holds a field that does not
  parse ends both polling loops with the panic of \<open>check\<close>.
\<close>

theorem polling_decode_failure_counterexample:
  "outputIsValid garbled_line re
   \<and> outputToMap garbled_line = Inl (PanicParse ErrSyntax)
   \<and> level_loop (steady garbled_line) ''V00'' 255 world0
       = Some (Inl (PanicParse ErrSyntax), polled world0 1)
   \<and> pump_loop (steady garbled_line) ''PUMP_ON'' world0
       = Some (Inl (PanicParse ErrSyntax), polled world0 1)"
proof -
  have g: "outputToMap garbled_line = Inl (PanicParse ErrSyntax)"
    using garbled_line_panics by (simp add: panic_of_eq)
  have q: "\<forall>k. \<not> write_err (steady garbled_line) k" by (simp add: steady_def)
  have l: "line (steady garbled_line) (nreads world0) = garbled_line" by (simp add: steady_def)
  show ?thesis
    using loops_panic [OF q, of world0 "PanicParse ErrSyntax"] g garbled_line_valid
    by (simp add: l)
qed

text \<open>
  C9, amended. While polling on a port that does not fail, a reply that fails validation
  is absorbed: the loop goes on as if started after it. A reply that passes validation
  and does not decode ends the loop with the panic of the decoder, and the loops end with
  a panic in this case only.
\<close>

theorem polling_decode_failure:
  "(\<forall>k. \<not> write_err e k) \<longrightarrow>
     (\<not> outputIsValid (line e (nreads st)) re
        \<longrightarrow> level_loop e param v st = level_loop e param v (polled st 1)
            \<and> pump_loop e param st = pump_loop e param (polled st 1))
     \<and> (outputIsValid (line e (nreads st)) re \<and> outputToMap (line e (nreads st)) = Inl f
        \<longrightarrow> level_loop e param v st = Some (Inl f, polled st 1)
            \<and> pump_loop e param st = Some (Inl f, polled st 1))
     \<and> (level_loop e param v st = Some (Inl f, st1) \<or> pump_loop e param st = Some (Inl f, st1)
        \<longrightarrow> (\<exists>j\<ge>nreads st. outputIsValid (line e j) re \<and> outputToMap (line e j) = Inl f
              \<and> st1 = polled st (Suc j - nreads st)))"
proof (intro impI conjI)
  assume nw: "\<forall>k. \<not> write_err e k"
  {
    assume inv: "\<not> outputIsValid (line e (nreads st)) re"
    show "level_loop e param v st = level_loop e param v (polled st 1)"
      by (rule loops_skip_invalid(1) [OF nw inv])
    show "pump_loop e param st = pump_loop e param (polled st 1)"
      by (rule loops_skip_invalid(2) [OF nw inv])
  }
  {
    assume bad: "outputIsValid (line e (nreads st)) re \<and> outputToMap (line e (nreads st)) = Inl f"
    show "level_loop e param v st = Some (Inl f, polled st 1)"
      using loops_panic(1) [OF nw] bad by blast
    show "pump_loop e param st = Some (Inl f, polled st 1)"
      using loops_panic(2) [OF nw] bad by blast
  }
  {
    assume "level_loop e param v st = Some (Inl f, st1) \<or> pump_loop e param st = Some (Inl f, st1)"
    then show "\<exists>j\<ge>nreads st. outputIsValid (line e j) re \<and> outputToMap (line e j) = Inl f
              \<and> st1 = polled st (Suc j - nreads st)"
      by (rule loops_panic_only [OF nw])
  }
qed

theorem polling_decode_failure_witness:
  "level_loop (steady short_line) ''V00'' 255 world0
     = level_loop (steady short_line) ''V00'' 255 (polled world0 1)
   \<and> pump_loop (steady short_line) ''PUMP_ON'' world0
     = pump_loop (steady short_line) ''PUMP_ON'' (polled world0 1)
   \<and> level_loop (steady garbled_line) ''V00'' 255 world0
       = Some (Inl (PanicParse ErrSyntax), polled world0 1)
   \<and> pump_loop (steady garbled_line) ''PUMP_ON'' world0
       = Some (Inl (PanicParse ErrSyntax), polled world0 1)
   \<and> (\<exists>j. nreads world0 \<le> j \<and> outputIsValid (line (steady garbled_line) j) re
          \<and> outputToMap (line (steady garbled_line) j) = Inl (PanicParse ErrSyntax)
          \<and> polled world0 1 = polled world0 (Suc j - nreads world0))"
proof -
  have g: "outputToMap garbled_line = Inl (PanicParse ErrSyntax)"
    using garbled_line_panics by (simp add: panic_of_eq)
  have q: "\<And>s. \<forall>k. \<not> write_err (steady s) k" by (simp add: steady_def)
  have l: "\<And>s k. line (steady s) k = s" by (simp add: steady_def)
  have inv: "\<not> outputIsValid short_line re" using short_line_invalid by simp
  note skip = polling_decode_failure
    [of "steady short_line" world0 _ 255 "PanicParse ErrSyntax" "polled world0 1"]
  note stop = polling_decode_failure
    [of "steady garbled_line" world0 _ 255 "PanicParse ErrSyntax" "polled world0 1"]
  have a: "level_loop (steady short_line) ''V00'' 255 world0
     = level_loop (steady short_line) ''V00'' 255 (polled world0 1)
   \<and> pump_loop (steady short_line) ''PUMP_ON'' world0
     = pump_loop (steady short_line) ''PUMP_ON'' (polled world0 1)"
    using skip [of "''V00''"] skip [of "''PUMP_ON''"] q [of short_line] inv by (simp add: l)
  have b: "level_loop (steady garbled_line) ''V00'' 255 world0
       = Some (Inl (PanicParse ErrSyntax), polled world0 1)
   \<and> pump_loop (steady garbled_line) ''PUMP_ON'' world0
       = Some (Inl (PanicParse ErrSyntax), polled world0 1)"
    using stop [of "''V00''"] stop [of "''PUMP_ON''"] q [of garbled_line] g garbled_line_valid
    by (simp add: l)
  have c: "\<exists>j\<ge>nreads world0. outputIsValid (line (steady garbled_line) j) re
          \<and> outputToMap (line (steady garbled_line) j) = Inl (PanicParse ErrSyntax)
          \<and> polled world0 1 = polled world0 (Suc j - nreads world0)"
    using stop [of "''V00''"] q [of garbled_line] b by blast
  from a b c show ?thesis by blast
qed

section \<open>Texts of numbers and the parser\<close>

lemma number_text_samples:
  "dec_text 255 = ''255'' \<and> hex_text 255 = ''ff'' \<and> dec_text 0 = ''0'' \<and> hex_text 10 = ''a''"
  by (simp add: dec_text_def hex_text_def digit_char_def)

declare number_text.simps [simp del]

lemma small_cases:
  assumes "(d::nat) < 16"
  shows "d = 0 \<or> d = 1 \<or> d = 2 \<or> d = 3 \<or> d = 4 \<or> d = 5 \<or> d = 6 \<or> d = 7 \<or> d = 8
         \<or> d = 9 \<or> d = 10 \<or> d = 11 \<or> d = 12 \<or> d = 13 \<or> d = 14 \<or> d = 15"
  using assms by arith

lemma digit_val_digit_char:
  assumes "d < 16"
  shows "digit_val (digit_char d) = Some d"
  using small_cases [OF assms]
  by (elim disjE) (simp_all add: digit_val_def digit_char_def lower_def)

lemma ParseUint_loop_snoc:
  "ParseUint_loop b n (xs @ [c]) =
     (case ParseUint_loop b n xs of
        (m, None) \<Rightarrow> ParseUint_loop b m [c]
      | (m, Some err) \<Rightarrow> (m, Some err))"
  by (induction xs arbitrary: n) (auto simp add: Let_def split: option.splits)

lemma maxUint64_bounds: "0 \<le> maxUint64" "maxUint64 < 2 ^ 64"
  by (simp_all add: maxUint64_def)

lemma ParseUint_loop_digit:
  assumes b: "2 \<le> b" "b \<le> 16" and d: "d < b" and n: "0 \<le> n"
    and fit: "n * int b + int d \<le> maxUint64"
  shows "ParseUint_loop b n [digit_char d] = (n * int b + int d, None)"
proof -
  have dv: "digit_val (digit_char d) = Some d" using b d by (simp add: digit_val_digit_char)
  have bpos: "0 < int b" using b by simp
  have "n * int b \<le> maxUint64" using fit by simp
  then have "(n * int b) div int b \<le> maxUint64 div int b"
    using bpos by (rule zdiv_mono1)
  then have "n \<le> maxUint64 div int b" using bpos by simp
  then have cut: "\<not> n \<ge> maxUint64 div int b + 1" by simp
  have nn: "0 \<le> n * int b + int d" using n by simp
  have md: "(n * int b + int d) mod 2 ^ 64 = n * int b + int d"
    using nn fit maxUint64_bounds(2) by simp
  then have md': "(n * int b + int d) mod 18446744073709551616 = n * int b + int d"
    by simp
  show ?thesis
    using dv d cut fit by (simp add: Let_def md')
qed

lemma ParseUint_loop_number_text:
  "2 \<le> b \<Longrightarrow> b \<le> 16 \<Longrightarrow> int v \<le> maxUint64 \<Longrightarrow>
   ParseUint_loop b 0 (number_text v b) = (int v, None)"
proof (induction v b rule: number_text.induct)
  case (1 n base)
  note b = 1(2,3)
  show ?case
  proof (cases "base < 2 \<or> n < base")
    case True
    with b have small: "n < base" by simp
    have "ParseUint_loop base 0 [digit_char n] = (0 * int base + int n, None)"
      using 1(4) small b by (intro ParseUint_loop_digit) simp_all
    with True show ?thesis by (simp add: number_text.simps [of n base])
  next
    case False
    have le: "n div base \<le> n" by simp
    then have "int (n div base) \<le> maxUint64" using 1(4) by linarith
    from 1(1) [OF False b this]
    have ih: "ParseUint_loop base 0 (number_text (n div base) base) = (int (n div base), None)" .
    have split: "int (n div base) * int base + int (n mod base) = int n"
      by (simp flip: of_nat_mult of_nat_add)
    have "ParseUint_loop base (int (n div base)) [digit_char (n mod base)]
            = (int (n div base) * int base + int (n mod base), None)"
      using b 1(4) by (intro ParseUint_loop_digit) (simp_all add: split)
    with False ih show ?thesis
      by (simp add: number_text.simps [of n base] ParseUint_loop_snoc split)
  qed
qed

lemma number_text_digits:
  "2 \<le> b \<Longrightarrow> b \<le> 16 \<Longrightarrow> c \<in> set (number_text v b) \<Longrightarrow> \<exists>d<16. c = digit_char d"
proof (induction v b rule: number_text.induct)
  case (1 n base)
  show ?case
  proof (cases "base < 2 \<or> n < base")
    case True
    with 1(2,3,4) show ?thesis
      by (auto simp add: number_text.simps [of n base] intro!: exI [of _ n])
  next
    case False
    from 1(4) False have "c \<in> set (number_text (n div base) base) \<or> c = digit_char (n mod base)"
      by (auto simp add: number_text.simps [of n base])
    then show ?thesis
    proof
      assume "c \<in> set (number_text (n div base) base)"
      from 1(1) [OF False 1(2,3) this] show ?thesis .
    next
      assume c: "c = digit_char (n mod base)"
      have "n mod base < 16" using 1(2,3) by (simp add: less_le_trans [OF mod_less_divisor])
      with c show ?thesis by blast
    qed
  qed
qed

lemma number_text_nonempty: "number_text v b \<noteq> []"
  by (simp add: number_text.simps [of v b])

lemma digit_char_not_special:
  assumes "d < 16"
  shows "digit_char d \<noteq> CHR ''+''" "digit_char d \<noteq> CHR ''-''" "digit_char d \<noteq> CHR ''=''"
    "digit_char d \<noteq> CHR '';''"
  using small_cases [OF assms] by (auto simp add: digit_char_def)

lemma ParseInt_number_text:
  assumes b: "2 \<le> b" "b \<le> 16" and v: "v < 2 ^ 63"
  shows "ParseInt (number_text v b) b = (int v, None)"
proof -
  have ne: "number_text v b \<noteq> []" by (rule number_text_nonempty)
  then have "hd (number_text v b) \<in> set (number_text v b)" by simp
  from number_text_digits [OF b this] obtain d where d: "d < 16"
    "hd (number_text v b) = digit_char d" by blast
  have nosign: "hd (number_text v b) \<noteq> CHR ''+''" "hd (number_text v b) \<noteq> CHR ''-''"
    using digit_char_not_special [OF d(1)] d(2) by simp_all
  have "int v < 2 ^ 63" using v by (simp flip: of_nat_less_iff)
  then have fit: "int v \<le> maxUint64" and small: "\<not> 9223372036854775808 \<le> int v"
    by (simp_all add: maxUint64_def)
  have "ParseUint (number_text v b) b = (int v, None)"
    using ne ParseUint_loop_number_text [OF b fit] by (simp add: ParseUint_def)
  then show ?thesis
    using ne nosign small by (simp add: ParseInt_def)
qed

section \<open>Decoding the segment of a level parameter\<close>

lemma Split_nonempty: "Split s sep \<noteq> []"
  by (induction s) (auto split: list.splits)

lemma Split_no_sep: "sep \<notin> set s \<Longrightarrow> Split s sep = [s]"
  by (induction s) auto

lemma Split_at_sep: "sep \<notin> set a \<Longrightarrow> Split (a @ sep # b) sep = a # Split b sep"
  by (induction a) auto

lemma hex_text_no_sep:
  assumes "c \<in> set (hex_text v)"
  shows "c \<noteq> CHR ''=''"
proof -
  from assms number_text_digits [of 16 c v] obtain d where "d < 16" "c = digit_char d"
    by (auto simp add: hex_text_def)
  then show ?thesis using digit_char_not_special(3) by simp
qed

lemma level_param_shape:
  assumes "stringInSlice p VxxParams"
  shows "CHR ''='' \<notin> set p" "HasPrefix (p @ s) ''V''" "\<not> HasPrefix p ''PUMP''"
  using assms by (auto simp add: stringInSlice_set VxxParams_def HasPrefix_def)

lemma level_segment_split:
  assumes "stringInSlice p VxxParams"
  shows "Split (p @ ''='' @ hex_text v) CHR ''='' = [p, hex_text v]"
proof -
  have "CHR ''='' \<notin> set (hex_text v)" using hex_text_no_sep by blast
  then have "Split (hex_text v) CHR ''='' = [hex_text v]" by (rule Split_no_sep)
  then show ?thesis
    using Split_at_sep [OF level_param_shape(1) [OF assms], of "hex_text v"] by simp
qed

lemma outputToMap_loop_append:
  "outputToMap_loop (xs @ ys) res =
     (case outputToMap_loop xs res of Inl f \<Rightarrow> Inl f | Inr r \<Rightarrow> outputToMap_loop ys r)"
  by (induction xs arbitrary: res) (auto simp add: Let_def split: option.splits prod.splits)

lemma outputToMap_loop_keeps:
  "outputToMap_loop xs res = Inr a \<Longrightarrow> \<forall>g\<in>set xs. hd (Split g CHR ''='') \<noteq> p \<Longrightarrow>
   a p = res p"
proof (induction xs arbitrary: res)
  case Nil
  then show ?case by simp
next
  case (Cons g xs)
  have ne: "Split g CHR ''='' \<noteq> []" by (rule Split_nonempty)
  then have h0: "Split g CHR ''='' ! 0 = hd (Split g CHR ''='')" by (simp add: hd_conv_nth)
  from Cons.prems(2) have key: "Split g CHR ''='' ! 0 \<noteq> p" and rest: "\<forall>g\<in>set xs. hd (Split g CHR ''='') \<noteq> p"
    using h0 by simp_all
  from Cons.prems(1) obtain num where
    "outputToMap_loop xs (res(Split g CHR ''='' ! 0 \<mapsto> num)) = Inr a"
    by (auto simp add: Let_def split: if_splits option.splits prod.splits)
  from Cons.IH [OF this rest] key show ?case by simp
qed

lemma level_segment_decodes:
  assumes p: "stringInSlice p VxxParams" and v: "v \<le> 255"
  shows "outputToMap_loop ((p @ ''='' @ hex_text v) # rest) res
           = outputToMap_loop rest (res(p \<mapsto> int v))"
proof -
  have "v < 2 ^ 63" using v by simp
  then have "ParseInt (hex_text v) 16 = (int v, None)"
    unfolding hex_text_def by (intro ParseInt_number_text) simp_all
  then show ?thesis
    using level_segment_split [OF p, of v] level_param_shape(2) [OF p]
    by (simp add: Let_def)
qed

lemma level_field_decoded:
  assumes p: "stringInSlice p VxxParams" and v: "v \<le> 255"
    and segs: "butlast (Split s CHR '';'') = pre @ [p @ ''='' @ hex_text v] @ post"
    and later: "\<forall>g\<in>set post. hd (Split g CHR ''='') \<noteq> p"
    and dec: "outputToMap s = Inr a"
  shows "a p = Some (int v)"
proof -
  from dec segs have
    "outputToMap_loop (pre @ (p @ ''='' @ hex_text v) # post) Map.empty = Inr a"
    by (simp add: outputToMap_def Let_def)
  then obtain r where r: "outputToMap_loop pre Map.empty = Inr r"
    "outputToMap_loop ((p @ ''='' @ hex_text v) # post) r = Inr a"
    by (auto simp add: outputToMap_loop_append split: sum.splits)
  from r(2) have "outputToMap_loop post (r(p \<mapsto> int v)) = Inr a"
    by (simp only: level_segment_decodes [OF p v])
  from outputToMap_loop_keeps [OF this later] show ?thesis by simp
qed

section \<open>A level request from end to end\<close>

text \<open>
  C4. For a level parameter \<open>p\<close> and a value \<open>v\<close> from 0 to 255, a set request with the
  decimal text of \<open>v\<close> writes the command \<open><SET_p=v;>\<close>; when the reply read next is a
  valid line that decodes and whose segment for \<open>p\<close> (no later segment has that name)
  carries the hexadecimal text of \<open>v\<close>, the decoded frame holds \<open>v\<close> for \<open>p\<close>, which is
  the number the request parses to, and the handler answers with that frame after one
  round of query and reply.
\<close>

theorem level_round_trip:
  "stringInSlice p VxxParams \<and> v \<le> 255 \<and> (\<forall>k. \<not> write_err e k)
     \<and> outputIsValid (line e (nreads st)) re
     \<and> butlast (Split (line e (nreads st)) CHR '';'') = pre @ [p @ ''='' @ hex_text v] @ post
     \<and> (\<forall>g\<in>set post. hd (Split g CHR ''='') \<noteq> p)
     \<and> outputToMap (line e (nreads st)) = Inr a
   \<longrightarrow> ParseInt (dec_text v) 10 = (int v, None) \<and> a p = Some (int v)
       \<and> setHandler e st p (dec_text v)
           = Some (Inr (Json a),
                   st\<lparr>written := written st @ [''<SET_'' @ p @ ''='' @ dec_text v @ '';>'',
                                                ''<GET_ALL;>''],
                      nreads := Suc (nreads st)\<rparr>)"
proof (intro impI)
  assume h: "stringInSlice p VxxParams \<and> v \<le> 255 \<and> (\<forall>k. \<not> write_err e k)
     \<and> outputIsValid (line e (nreads st)) re
     \<and> butlast (Split (line e (nreads st)) CHR '';'') = pre @ [p @ ''='' @ hex_text v] @ post
     \<and> (\<forall>g\<in>set post. hd (Split g CHR ''='') \<noteq> p)
     \<and> outputToMap (line e (nreads st)) = Inr a"
  then have p: "stringInSlice p VxxParams" and v: "v \<le> 255" and nw: "\<forall>k. \<not> write_err e k"
    and valid: "outputIsValid (line e (nreads st)) re"
    and segs: "butlast (Split (line e (nreads st)) CHR '';'') = pre @ [p @ ''='' @ hex_text v] @ post"
    and later: "\<forall>g\<in>set post. hd (Split g CHR ''='') \<noteq> p"
    and dec: "outputToMap (line e (nreads st)) = Inr a"
    by simp_all
  have "v < 2 ^ 63" using v by simp
  then have pv: "ParseInt (dec_text v) 10 = (int v, None)"
    unfolding dec_text_def by (intro ParseInt_number_text) simp_all
  have ap: "a p = Some (int v)"
    by (rule level_field_decoded [OF p v segs later dec])
  have ok: "URLParamValid p" "URLValueValid p (dec_text v)"
    using p v pv by (simp_all add: URLParamValid_def URLValueValid_level)
  define st1 where "st1 = st\<lparr>written := written st @ [''<SET_'' @ p @ ''='' @ dec_text v @ '';>'']\<rparr>"
  have nr: "nreads st1 = nreads st" by (simp add: st1_def)
  have read: "singleOutputRead e st1 = Some (Inr (line e (nreads st)), polled st1 1)"
    using nw valid by (simp add: singleOutputRead_step nr)
  have loop: "level_loop e p (int v) st1 = Some (Inr (Json a), polled st1 1)"
    by (subst level_loop_unroll [OF read]) (simp add: dec ap)
  have fin: "polled st1 1
      = st\<lparr>written := written st @ [''<SET_'' @ p @ ''='' @ dec_text v @ '';>'', ''<GET_ALL;>''],
           nreads := Suc (nreads st)\<rparr>"
    by (simp add: st1_def polled_def)
  have "setHandler e st p (dec_text v) = level_loop e p (int v) st1"
    using ok p nw level_param_shape(3) [OF p] pv
    by (simp add: setHandler_def Let_def st1_def)
  with loop fin pv ap
  show "ParseInt (dec_text v) 10 = (int v, None) \<and> a p = Some (int v)
       \<and> setHandler e st p (dec_text v)
           = Some (Inr (Json a),
                   st\<lparr>written := written st @ [''<SET_'' @ p @ ''='' @ dec_text v @ '';>'',
                                                ''<GET_ALL;>''],
                      nreads := Suc (nreads st)\<rparr>)"
    by simp
qed

theorem level_round_trip_witness:
  "\<exists>a. outputToMap sample_line = Inr a \<and> a ''V00'' = Some 255
       \<and> setHandler (steady sample_line) world0 ''V00'' ''255''
           = Some (Inr (Json a), world0\<lparr>written := [''<SET_V00=255;>'', ''<GET_ALL;>''],
                                        nreads := 1\<rparr>)"
proof -
  have "\<not> isl (outputToMap sample_line)" using sample_line_decodes by (rule conjunct1)
  from decodes_ex [OF this] obtain a where a: "outputToMap sample_line = Inr a" by blast
  have t: "dec_text 255 = ''255''" "hex_text 255 = ''ff''"
    using number_text_samples by simp_all
  have l: "\<And>k. line (steady sample_line) k = sample_line" by (simp add: steady_def)
  have w0: "written world0 = []" "nreads world0 = 0" by (simp_all add: world0_def)
  have "stringInSlice ''V00'' VxxParams \<and> (255::nat) \<le> 255
     \<and> (\<forall>k. \<not> write_err (steady sample_line) k)
     \<and> outputIsValid (line (steady sample_line) (nreads world0)) re
     \<and> butlast (Split (line (steady sample_line) (nreads world0)) CHR '';'')
         = [] @ [''V00'' @ ''='' @ hex_text 255] @ sample_rest
     \<and> (\<forall>g\<in>set sample_rest. hd (Split g CHR ''='') \<noteq> ''V00'')
     \<and> outputToMap (line (steady sample_line) (nreads world0)) = Inr a"
    using sample_line_valid sample_line_segments sample_rest_names a
    by (simp add: l t VxxParams_def steady_def)
  from level_round_trip [of "''V00''" 255 "steady sample_line" world0 "[]" sample_rest a,
      rule_format, OF this]
  have "a ''V00'' = Some 255
       \<and> setHandler (steady sample_line) world0 ''V00'' ''255''
           = Some (Inr (Json a), world0\<lparr>written := [''<SET_V00=255;>'', ''<GET_ALL;>''],
                                        nreads := 1\<rparr>)"
    by (simp add: t w0)
  with a show ?thesis by blast
qed

section \<open>The port under concurrent tasks\<close>

lemma polled_as_ops: "polled st k = foldl do_op st (concat (replicate k round_ops))"
proof (induction k arbitrary: st)
  case 0
  show ?case by (simp add: polled_0)
next
  case (Suc k)
  have "polled st (Suc k) = polled (polled st 1) k"
    by (simp add: polled_polled)
  also have "\<dots> = foldl do_op (polled st 1) (concat (replicate k round_ops))"
    by (rule Suc.IH)
  also have "polled st 1 = foldl do_op st round_ops"
    by (simp add: polled_def round_ops_def)
  finally show ?case by simp
qed

lemma singleOutputRead_as_ops:
  assumes "singleOutputRead e st = Some (r, st1)" and "\<forall>k. \<not> write_err e k"
  shows "\<exists>k>0. st1 = foldl do_op st (concat (replicate k round_ops))"
proof -
  from singleOutputRead_returns [OF assms] obtain j where
    "nreads st \<le> j" "st1 = polled st (Suc j - nreads st)" by auto
  then show ?thesis
    by (intro exI [of _ "Suc j - nreads st"]) (simp add: polled_as_ops)
qed

lemma getHandler_as_ops:
  assumes "getHandler e st = Some (r, st1)" and nw: "\<forall>k. \<not> write_err e k"
  shows "\<exists>k>0. st1 = foldl do_op st (concat (replicate k round_ops))"
proof -
  from assms(1) obtain x st' where x: "singleOutputRead e st = Some (x, st')"
    by (cases "singleOutputRead e st") (auto simp add: getHandler_def read_frame_def)
  with assms(1) have "st1 = st'"
    by (auto simp add: getHandler_def read_frame_def split: sum.splits)
  with singleOutputRead_as_ops [OF x nw] show ?thesis by simp
qed

lemma DB_cycle_as_ops:
  assumes "\<not> write_err e (length (written st))"
  shows "written (snd (DB_cycle e st)) = written (foldl do_op st round_ops)
         \<and> nreads (snd (DB_cycle e st)) = nreads (foldl do_op st round_ops)"
  using assms by (auto simp add: DB_cycle_def Let_def round_ops_def split: sum.splits)

lemma polling_as_ops:
  assumes "level_loop e param v st = Some r \<or> pump_loop e param st = Some r"
    and nw: "\<forall>k. \<not> write_err e k"
  shows "\<exists>k>0. snd r = foldl do_op st (concat (replicate k round_ops))"
proof -
  from assms(1) have "\<exists>j\<ge>nreads st. snd r = polled st (Suc j - nreads st)"
  proof
    assume "level_loop e param v st = Some r"
    from level_loop_returns [OF this nw] show ?thesis by blast
  next
    assume "pump_loop e param st = Some r"
    from pump_loop_returns [OF this nw] show ?thesis by blast
  qed
  then obtain j where "nreads st \<le> j" "snd r = polled st (Suc j - nreads st)" by blast
  then show ?thesis
    by (intro exI [of _ "Suc j - nreads st"]) (simp add: polled_as_ops)
qed

lemma schedule_world:
  "nreads (foldl do_op st (map snd s)) = nreads st + length (received s)
   \<and> length (written (foldl do_op st (map snd s))) = length (written st) + length (sent s)"
  by (induction s arbitrary: st rule: sent.induct) simp_all






end
